theory Spec2Isabelle
  imports Main "HOL-Library.Signed_Division"
begin

section \<open>Errors, machine integers and checked reads\<close>

text \<open>
  Every way in which the two conversion functions of \<^verbatim>\<open>jalali_extension.cpp\<close> can leave
  without a value is a constructor here:
  \<^item> \<open>FormatError\<close>: the \<^verbatim>\<open>InvalidInputException\<close> thrown at line 31;
  \<^item> \<open>ParseError\<close>: \<^verbatim>\<open>std::stoi\<close> throwing (no digits, or a value outside \<^verbatim>\<open>int\<close>);
  \<^item> \<open>IndexError\<close>: a read outside a vector or an array;
  \<^item> \<open>ConversionError\<close>: the host library refusing a date or a timestamp out of range.
\<close>

datatype error = FormatError | ParseError | IndexError | ConversionError

text \<open>
  A C \<^verbatim>\<open>int\<close> is 32 bits wide. The model computes on \<open>int\<close> and writes the two's complement
  wrap-around out wherever a value stored in an \<^verbatim>\<open>int\<close> can leave that range: the day
  numbers of \<^verbatim>\<open>JalaliToGregorian\<close>, which grow with the parsed fields, and the \<^verbatim>\<open>int\<close>
  variables of \<^verbatim>\<open>GregorianToJalali\<close>. What is computed from a day number after its
  reduction modulo 146097 stays far inside the range. \<^verbatim>\<open>/\<close> and \<^verbatim>\<open>%\<close> of C truncate towards
  zero and are \<open>sdiv\<close> and \<open>smod\<close>. Variables of type \<^verbatim>\<open>long\<close> (64 bits) hold day numbers
  far below their range and are plain \<open>int\<close>.
\<close>

definition int32 :: "int \<Rightarrow> int" where
  "int32 x = (x + 2147483648) mod 4294967296 - 2147483648"

text \<open>Reading element \<open>i\<close> of a vector or an array; out of range is an error of the model.\<close>

definition at :: "'a list \<Rightarrow> int \<Rightarrow> error + 'a" where
  "at xs i = (if 0 \<le> i \<and> i < int (length xs) then Inr (xs ! nat i) else Inl IndexError)"

section \<open>Library functions the source calls\<close>

subsection \<open>Strings\<close>

text \<open>
  Modelled from the spec: \<^verbatim>\<open>StringUtil::Split(str, delimiter)\<close> with a \<^verbatim>\<open>char\<close> delimiter is
  not part of the source file. It reads the string with \<^verbatim>\<open>getline\<close> until that fails:
  each round takes the characters up to the next delimiter and drops the delimiter, so
  the empty string yields no part at all and a trailing delimiter yields no empty last
  part.
\<close>

function Split :: "string \<Rightarrow> char \<Rightarrow> string list" where
  "Split str delimiter =
     (if str = [] then []
      else takeWhile (\<lambda>c. c \<noteq> delimiter) str
             # Split (drop 1 (dropWhile (\<lambda>c. c \<noteq> delimiter) str)) delimiter)"
  by pat_completeness auto
termination
proof (relation "measure (\<lambda>(str, delimiter). length str)")
  show "wf (measure (\<lambda>(str, delimiter). length str))"
    by simp
next
  fix str :: string and delimiter :: char
  assume ne: "str \<noteq> []"
  define rest where "rest = dropWhile (\<lambda>c. c \<noteq> delimiter) str"
  have le: "length rest \<le> length str"
    unfolding rest_def by (rule length_dropWhile_le)
  have "length (drop 1 rest) < length str"
  proof (cases rest)
    case Nil
    with ne show ?thesis by simp
  next
    case (Cons x xs)
    with le show ?thesis by simp
  qed
  then show "((drop 1 (dropWhile (\<lambda>c. c \<noteq> delimiter) str), delimiter), (str, delimiter))
          \<in> measure (\<lambda>(str, delimiter). length str)"
    by (simp add: rest_def)
qed

text \<open>
  Modelled from the spec: \<^verbatim>\<open>std::stoi\<close> of the C++ library. It skips leading white space,
  takes an optional sign and the longest run of decimal digits, ignores what follows,
  and throws when there is no digit or when the value does not fit an \<^verbatim>\<open>int\<close>
  (the spec's \<open>ParseError\<close>).
\<close>

definition isspace :: "char \<Rightarrow> bool" where
  "isspace c = (c \<in> set [CHR '' '', CHR 0x09, CHR 0x0A, CHR 0x0B, CHR 0x0C, CHR 0x0D])"

definition isdigit :: "char \<Rightarrow> bool" where
  "isdigit c = (c \<in> set ''0123456789'')"

definition digit_val :: "char \<Rightarrow> int" where
  "digit_val c = int (of_char c) - 48"

definition digits_val :: "string \<Rightarrow> int" where
  "digits_val ds = foldl (\<lambda>acc c. 10 * acc + digit_val c) 0 ds"

definition stoi :: "string \<Rightarrow> error + int" where
  "stoi str =
     (let s1 = dropWhile isspace str;
          neg = (s1 \<noteq> [] \<and> hd s1 = CHR ''-'');
          s2 = (if s1 \<noteq> [] \<and> (hd s1 = CHR ''-'' \<or> hd s1 = CHR ''+'') then tl s1 else s1);
          ds = takeWhile isdigit s2;
          v = (if neg then - digits_val ds else digits_val ds)
      in if ds = [] then Inl ParseError
         else if v < - 2147483648 \<or> 2147483647 < v then Inl ParseError
         else Inr v)"

text \<open>
  Modelled from the spec: \<^verbatim>\<open>snprintf\<close> with the conversions \<^verbatim>\<open>%04d\<close> and \<^verbatim>\<open>%02d\<close>. A
  conversion \<^verbatim>\<open>%0Wd\<close> prints the decimal digits of the number, padded with zeros on the
  left to at least \<open>W\<close> characters, a minus sign counting as one of them; \<^verbatim>\<open>snprintf\<close>
  with a buffer of \<open>n\<close> bytes keeps the first \<open>n - 1\<close> characters.
\<close>

definition digit_char :: "nat \<Rightarrow> char" where
  "digit_char d = ''0123456789'' ! d"

function dec :: "nat \<Rightarrow> string" where
  "dec n = (if n < 10 then [digit_char n] else dec (n div 10) @ [digit_char (n mod 10)])"
  by pat_completeness auto
termination
  by (relation "measure (\<lambda>n. n)") auto

definition fmt_d :: "nat \<Rightarrow> int \<Rightarrow> string" where
  "fmt_d w x =
     (if x < 0
      then CHR ''-'' # replicate (w - 1 - length (dec (nat (- x)))) CHR ''0'' @ dec (nat (- x))
      else replicate (w - length (dec (nat x))) CHR ''0'' @ dec (nat x))"

definition snprintf :: "nat \<Rightarrow> string \<Rightarrow> string" where
  "snprintf n s = take (n - 1) s"

subsection \<open>Dates, times of day and timestamps of the host\<close>

text \<open>
  Modelled from the spec: the host's \<^verbatim>\<open>date_t\<close>, \<^verbatim>\<open>dtime_t\<close> and \<^verbatim>\<open>timestamp_t\<close> and the
  functions \<^verbatim>\<open>Date::FromDate\<close>, \<^verbatim>\<open>Date::Convert\<close>, \<^verbatim>\<open>Date::IsLeapYear\<close>, \<^verbatim>\<open>Time::FromTime\<close>,
  \<^verbatim>\<open>Time::Convert\<close>, \<^verbatim>\<open>Timestamp::FromDatetime\<close>, \<^verbatim>\<open>Timestamp::GetDate\<close> and
  \<^verbatim>\<open>Timestamp::GetTime\<close> are not part of the source file. The spec keeps the composed
  date-time value opaque beyond ``construct from (date, time)'' and ``decompose into
  (date, time)''. Accordingly a date is kept as its proleptic Gregorian year, month and
  day, a time of day as a number of microseconds, and a timestamp as a date with the
  microseconds since its midnight. \<^verbatim>\<open>Date::FromDate\<close> refuses what is not a day of the
  calendar, \<^verbatim>\<open>Time::FromTime\<close> checks nothing, and \<^verbatim>\<open>Timestamp::FromDatetime\<close> carries
  a time outside \<open>[0, 24h)\<close> into the date and refuses a result outside the host's
  timestamp range (from 290309-12-22 BC to 294247-01-10 04:00:54.775806).
\<close>

record date_t =
  d_year :: int
  d_month :: int
  d_day :: int

record timestamp_t =
  ts_date :: date_t
  ts_micros :: int

definition MICROS_PER_SEC :: int where "MICROS_PER_SEC = 1000000"
definition MICROS_PER_MINUTE :: int where "MICROS_PER_MINUTE = 60000000"
definition MICROS_PER_HOUR :: int where "MICROS_PER_HOUR = 3600000000"
definition MICROS_PER_DAY :: int where "MICROS_PER_DAY = 86400000000"

definition Date_IsLeapYear :: "int \<Rightarrow> bool" where
  "Date_IsLeapYear y = (y smod 4 = 0 \<and> (y smod 100 \<noteq> 0 \<or> y smod 400 = 0))"

definition Date_MonthDays :: "int \<Rightarrow> int \<Rightarrow> int" where
  "Date_MonthDays y m =
     (if m = 2 then (if Date_IsLeapYear y then 29 else 28)
      else if m = 4 \<or> m = 6 \<or> m = 9 \<or> m = 11 then 30 else 31)"

definition Date_IsValid :: "int \<Rightarrow> int \<Rightarrow> int \<Rightarrow> bool" where
  "Date_IsValid y m d =
     (1 \<le> m \<and> m \<le> 12 \<and> 1 \<le> d \<and> d \<le> Date_MonthDays y m \<and>
      (- 5877641 < y \<or> (y = - 5877641 \<and> (6 < m \<or> (m = 6 \<and> 25 \<le> d)))) \<and>
      (y < 5881580 \<or> (y = 5881580 \<and> (m < 7 \<or> (m = 7 \<and> d \<le> 10)))))"

definition Date_FromDate :: "int \<Rightarrow> int \<Rightarrow> int \<Rightarrow> error + date_t" where
  "Date_FromDate y m d =
     (if Date_IsValid y m d then Inr \<lparr>d_year = y, d_month = m, d_day = d\<rparr> else Inl ConversionError)"

definition Date_Convert :: "date_t \<Rightarrow> int \<times> int \<times> int" where
  "Date_Convert d = (d_year d, d_month d, d_day d)"

definition Time_FromTime :: "int \<Rightarrow> int \<Rightarrow> int \<Rightarrow> int" where
  "Time_FromTime hour minute second = ((hour * 60 + minute) * 60 + second) * MICROS_PER_SEC"

definition Time_Convert :: "int \<Rightarrow> int \<times> int \<times> int \<times> int" where
  "Time_Convert dtime =
     (let hour = dtime sdiv MICROS_PER_HOUR;
          t1 = dtime - hour * MICROS_PER_HOUR;
          minute = t1 sdiv MICROS_PER_MINUTE;
          t2 = t1 - minute * MICROS_PER_MINUTE;
          sec = t2 sdiv MICROS_PER_SEC;
          t3 = t2 - sec * MICROS_PER_SEC
      in (hour, minute, sec, t3))"

definition next_day :: "date_t \<Rightarrow> date_t" where
  "next_day d =
     (if d_day d < Date_MonthDays (d_year d) (d_month d) then d\<lparr>d_day := d_day d + 1\<rparr>
      else if d_month d < 12 then d\<lparr>d_month := d_month d + 1, d_day := 1\<rparr>
      else \<lparr>d_year = d_year d + 1, d_month = 1, d_day = 1\<rparr>)"

definition prev_day :: "date_t \<Rightarrow> date_t" where
  "prev_day d =
     (if 1 < d_day d then d\<lparr>d_day := d_day d - 1\<rparr>
      else if 1 < d_month d
        then d\<lparr>d_month := d_month d - 1, d_day := Date_MonthDays (d_year d) (d_month d - 1)\<rparr>
      else \<lparr>d_year = d_year d - 1, d_month = 12, d_day = 31\<rparr>)"

function add_days :: "date_t \<Rightarrow> int \<Rightarrow> date_t" where
  "add_days d n =
     (if 0 < n then add_days (next_day d) (n - 1)
      else if n < 0 then add_days (prev_day d) (n + 1)
      else d)"
  by pat_completeness auto
termination
  by (relation "measure (\<lambda>(d, n). nat \<bar>n\<bar>)") auto

definition stamp_le :: "int \<times> int \<times> int \<times> int \<Rightarrow> int \<times> int \<times> int \<times> int \<Rightarrow> bool" where
  "stamp_le a b =
     (case a of (y1, m1, d1, u1) \<Rightarrow> case b of (y2, m2, d2, u2) \<Rightarrow>
        y1 < y2 \<or> (y1 = y2 \<and> (m1 < m2 \<or> (m1 = m2 \<and> (d1 < d2 \<or> (d1 = d2 \<and> u1 \<le> u2))))))"

definition in_timestamp_range :: "timestamp_t \<Rightarrow> bool" where
  "in_timestamp_range ts =
     (let s = (d_year (ts_date ts), d_month (ts_date ts), d_day (ts_date ts), ts_micros ts)
      in stamp_le (- 290308, 12, 22, 0) s \<and> stamp_le s (294247, 1, 10, 14454775806))"

definition Timestamp_FromDatetime :: "date_t \<Rightarrow> int \<Rightarrow> error + timestamp_t" where
  "Timestamp_FromDatetime d t =
     (let ts = \<lparr>ts_date = add_days d (t div MICROS_PER_DAY), ts_micros = t mod MICROS_PER_DAY\<rparr>
      in if in_timestamp_range ts then Inr ts else Inl ConversionError)"

definition Timestamp_GetDate :: "timestamp_t \<Rightarrow> date_t" where
  "Timestamp_GetDate ts = ts_date ts"

definition Timestamp_GetTime :: "timestamp_t \<Rightarrow> int" where
  "Timestamp_GetTime ts = ts_micros ts"

text \<open>
  The values a caller can hand to \<^verbatim>\<open>GregorianToJalali\<close>: a day of the calendar, a time
  of day below 24 hours, inside the host's timestamp range.
\<close>

definition valid_timestamp :: "timestamp_t \<Rightarrow> bool" where
  "valid_timestamp ts =
     (Date_IsValid (d_year (ts_date ts)) (d_month (ts_date ts)) (d_day (ts_date ts)) \<and>
      0 \<le> ts_micros ts \<and> ts_micros ts < MICROS_PER_DAY \<and> in_timestamp_range ts)"

section \<open>The source file\<close>

subsection \<open>\<^verbatim>\<open>IsLeapYear\<close> (lines 17 to 19)\<close>

definition IsLeapYear :: "int \<Rightarrow> bool" where
  "IsLeapYear year = (year smod 400 = 0 \<or> (year smod 100 \<noteq> 0 \<and> year smod 4 = 0))"

subsection \<open>\<^verbatim>\<open>JalaliToGregorian\<close> (lines 22 to 123)\<close>

text \<open>The \<^verbatim>\<open>for\<close> loop of lines 39 to 45, from \<open>i\<close> on.\<close>

function j_add_months :: "int \<Rightarrow> int \<Rightarrow> int \<Rightarrow> int" where
  "j_add_months i jm j_day_no =
     (if i < jm
      then j_add_months (i + 1) jm (int32 (j_day_no + (if i \<le> 6 then 31 else 30)))
      else j_day_no)"
  by pat_completeness auto
termination
  by (relation "measure (\<lambda>(i, jm, j_day_no). nat (jm - i))") auto

text \<open>The month lengths chosen at lines 74 to 83.\<close>

definition month_days :: "bool \<Rightarrow> int \<Rightarrow> int" where
  "month_days leap gm =
     (if gm = 2 then (if leap then 29 else 28)
      else if gm \<le> 7 \<and> gm smod 2 = 1 then 31
      else if gm \<ge> 8 \<and> gm smod 2 = 0 then 31
      else 30)"

text \<open>
  The \<^verbatim>\<open>while (true)\<close> loop of lines 73 to 90, returning \<open>(gm, g_day_no)\<close> at its
  \<^verbatim>\<open>break\<close>. Every round that does not leave takes at least 28 days off a positive
  \<open>g_day_no\<close>, so the loop ends.
\<close>

function g_month_walk :: "bool \<Rightarrow> int \<Rightarrow> int \<Rightarrow> int \<times> int" where
  "g_month_walk leap gm g_day_no =
     (if g_day_no < month_days leap gm then (gm, g_day_no)
      else g_month_walk leap (gm + 1) (g_day_no - month_days leap gm))"
  by pat_completeness auto
termination
proof (relation "measure (\<lambda>(leap, gm, g_day_no). nat g_day_no)")
  show "wf (measure (\<lambda>(leap, gm, g_day_no). nat g_day_no))"
    by simp
next
  fix leap :: bool and gm g_day_no :: int
  assume "\<not> g_day_no < month_days leap gm"
  then show "((leap, gm + 1, g_day_no - month_days leap gm), (leap, gm, g_day_no))
               \<in> measure (\<lambda>(leap, gm, g_day_no). nat g_day_no)"
    by (simp add: month_days_def split: if_splits)
qed

text \<open>Lines 37 to 46: the Jalali day number of the parsed fields.\<close>

definition jalali_day_no :: "int \<Rightarrow> int \<Rightarrow> int \<Rightarrow> int" where
  "jalali_day_no jy0 jm jd =
     (let jy = int32 (jy0 - 979);
          j_day_no = int32 (365 * jy + (jy sdiv 33) * 8 + ((jy smod 33 + 3) sdiv 4));
          j_day_no = j_add_months 1 jm j_day_no;
          j_day_no = int32 (j_day_no + (jd - 1))
      in j_day_no)"

text \<open>Lines 50 to 91: from the Gregorian day number to \<open>(gy, gm, gd)\<close>.\<close>

definition gregorian_of_day_no :: "int \<Rightarrow> int \<times> int \<times> int" where
  "gregorian_of_day_no g_day_no0 =
     (let gy = 1600 + 400 * (g_day_no0 sdiv 146097);
          g_day_no = g_day_no0 smod 146097;
          (gy, g_day_no, leap) =
             (if g_day_no \<ge> 36525
              then (let g_day_no = g_day_no - 1;
                        gy = gy + 100 * (g_day_no sdiv 36524);
                        g_day_no = g_day_no smod 36524
                    in if g_day_no \<ge> 365 then (gy, g_day_no + 1, True)
                       else (gy, g_day_no, False))
              else (gy, g_day_no, True));
          gy = gy + 4 * (g_day_no sdiv 1461);
          g_day_no = g_day_no smod 1461;
          (gy, g_day_no, leap) =
             (if g_day_no \<ge> 366
              then (gy + (g_day_no - 1) sdiv 365, (g_day_no - 1) smod 365, False)
              else (gy, g_day_no, leap));
          (gm, g_day_no) = g_month_walk leap 1 g_day_no;
          gd = g_day_no + 1
      in (gy, gm, gd))"

text \<open>Lines 37 to 91: from the parsed Jalali fields to \<open>(gy, gm, gd)\<close>.\<close>

definition jalali_to_gregorian_ymd :: "int \<Rightarrow> int \<Rightarrow> int \<Rightarrow> int \<times> int \<times> int" where
  "jalali_to_gregorian_ymd jy jm jd =
     (let j_day_no = jalali_day_no jy jm jd;
          g_day_no = int32 (j_day_no + 79)
      in gregorian_of_day_no g_day_no)"

text \<open>Lines 94 to 106: the time of day read from the second part of the input.\<close>

definition parse_time :: "string list \<Rightarrow> error + int \<times> int \<times> int" where
  "parse_time datetime_parts =
     (if length datetime_parts > 1
      then (case at datetime_parts 1 of Inl e \<Rightarrow> Inl e | Inr time_part \<Rightarrow>
        (let time_parts = Split time_part CHR '':'' in
         if length time_parts \<ge> 2
         then (case at time_parts 0 of Inl e \<Rightarrow> Inl e | Inr f0 \<Rightarrow>
              (case stoi f0 of Inl e \<Rightarrow> Inl e | Inr hour \<Rightarrow>
              (case at time_parts 1 of Inl e \<Rightarrow> Inl e | Inr f1 \<Rightarrow>
              (case stoi f1 of Inl e \<Rightarrow> Inl e | Inr minute \<Rightarrow>
               if length time_parts = 3
               then (case at time_parts 2 of Inl e \<Rightarrow> Inl e | Inr f2 \<Rightarrow>
                    (case stoi f2 of Inl e \<Rightarrow> Inl e | Inr second \<Rightarrow>
                     Inr (hour, minute, second)))
               else Inr (hour, minute, 0)))))
         else Inr (0, 0, 0)))
      else Inr (0, 0, 0))"

text \<open>Lines 27 to 35: the three Jalali fields read from the first part of the input.\<close>

definition parse_date :: "string list \<Rightarrow> error + int \<times> int \<times> int" where
  "parse_date datetime_parts =
     (case at datetime_parts 0 of Inl e \<Rightarrow> Inl e | Inr date_part \<Rightarrow>
       (let date_parts = Split date_part CHR ''-'' in
        if length date_parts \<noteq> 3 then Inl FormatError
        else (case at date_parts 0 of Inl e \<Rightarrow> Inl e | Inr f0 \<Rightarrow>
             (case stoi f0 of Inl e \<Rightarrow> Inl e | Inr jy \<Rightarrow>
             (case at date_parts 1 of Inl e \<Rightarrow> Inl e | Inr f1 \<Rightarrow>
             (case stoi f1 of Inl e \<Rightarrow> Inl e | Inr jm \<Rightarrow>
             (case at date_parts 2 of Inl e \<Rightarrow> Inl e | Inr f2 \<Rightarrow>
             (case stoi f2 of Inl e \<Rightarrow> Inl e | Inr jd \<Rightarrow>
              Inr (jy, jm, jd)))))))))"

text \<open>
  The whole function, in the order of the source: the date fields are read and
  converted, then the time is read, then the flag overrides it, and only then does the
  host build the date, the time and the timestamp.
\<close>

definition JalaliToGregorian :: "string \<Rightarrow> bool \<Rightarrow> error + timestamp_t" where
  "JalaliToGregorian jalali_datetime end_of_day =
     (let datetime_parts = Split jalali_datetime CHR '' '' in
      case parse_date datetime_parts of Inl e \<Rightarrow> Inl e | Inr (jy, jm, jd) \<Rightarrow>
       (let (gy, gm, gd) = jalali_to_gregorian_ymd jy jm jd in
        case parse_time datetime_parts of Inl e \<Rightarrow> Inl e | Inr (hour0, minute0, second0) \<Rightarrow>
         (let (hour, minute, second) =
                (if end_of_day then (23, 59, 59) else (hour0, minute0, second0)) in
          case Date_FromDate gy gm gd of Inl e \<Rightarrow> Inl e | Inr gregorian_date \<Rightarrow>
            Timestamp_FromDatetime gregorian_date (Time_FromTime hour minute second))))"

subsection \<open>\<^verbatim>\<open>GregorianToJalali\<close> (lines 141 to 203)\<close>

definition g_days_in_month :: "int \<Rightarrow> int list" where
  "g_days_in_month gy =
     [31, (if Date_IsLeapYear gy then 29 else 28), 31, 30, 31, 30, 31, 31, 30, 31, 30, 31]"

definition j_days_in_month :: "int list" where
  "j_days_in_month = [31, 31, 31, 31, 31, 31, 30, 30, 30, 30, 30, 29]"

text \<open>The \<^verbatim>\<open>for\<close> loop of lines 161 to 163, from \<open>i\<close> on.\<close>

function g_add_months :: "int list \<Rightarrow> int \<Rightarrow> int \<Rightarrow> int \<Rightarrow> error + int" where
  "g_add_months tbl i gm2 g_day_no =
     (if i < gm2
      then (case at tbl i of Inl e \<Rightarrow> Inl e
            | Inr v \<Rightarrow> g_add_months tbl (i + 1) gm2 (g_day_no + v))
      else Inr g_day_no)"
  by pat_completeness auto
termination
  by (relation "measure (\<lambda>(tbl, i, gm2, g_day_no). nat (gm2 - i))") auto

text \<open>The \<^verbatim>\<open>while\<close> loop of lines 179 to 183, from \<open>i\<close> on, returning \<open>(i, j_day_no)\<close>.\<close>

function j_month_walk :: "int \<Rightarrow> int \<Rightarrow> error + int \<times> int" where
  "j_month_walk i j_day_no =
     (if i < 11
      then (case at j_days_in_month i of Inl e \<Rightarrow> Inl e
            | Inr v \<Rightarrow> if j_day_no \<ge> v then j_month_walk (i + 1) (j_day_no - v)
                       else Inr (i, j_day_no))
      else Inr (i, j_day_no))"
  by pat_completeness auto
termination
  by (relation "measure (\<lambda>(i, j_day_no). nat (11 - i))") auto

text \<open>Lines 151 to 164: the Gregorian day number, counted from 1600-01-01.\<close>

definition gregorian_day_no :: "int \<Rightarrow> int \<Rightarrow> int \<Rightarrow> error + int" where
  "gregorian_day_no gy gm gd =
     (let gy2 = int32 (gy - 1600);
          gm2 = int32 (gm - 1);
          gd2 = int32 (gd - 1);
          g_day_no = int32 (365 * gy2 + (gy2 + 3) sdiv 4 - (gy2 + 99) sdiv 100
                              + (gy2 + 399) sdiv 400)
      in case g_add_months (g_days_in_month gy) 0 gm2 g_day_no of Inl e \<Rightarrow> Inl e
         | Inr g_day_no \<Rightarrow> Inr (g_day_no + gd2))"

text \<open>Lines 168 to 185: from the Jalali day number to \<open>(jy, jm, jd)\<close>.\<close>

definition jalali_of_day_no :: "int \<Rightarrow> error + int \<times> int \<times> int" where
  "jalali_of_day_no j_day_no0 =
     (let j_np = j_day_no0 sdiv 12053;
          j_day_no = j_day_no0 smod 12053;
          jy = int32 (979 + 33 * j_np + 4 * (j_day_no sdiv 1461));
          j_day_no = j_day_no smod 1461;
          (jy, j_day_no) =
             (if j_day_no \<ge> 366
              then (int32 (jy + (j_day_no - 1) sdiv 365), (j_day_no - 1) smod 365)
              else (jy, j_day_no))
      in case j_month_walk 0 j_day_no of Inl e \<Rightarrow> Inl e
         | Inr (i, j_day_no) \<Rightarrow> Inr (jy, int32 (i + 1), int32 (j_day_no + 1)))"

text \<open>Lines 151 to 185: from \<open>(gy, gm, gd)\<close> to the Jalali \<open>(jy, jm, jd)\<close>.\<close>

definition gregorian_to_jalali_ymd :: "int \<Rightarrow> int \<Rightarrow> int \<Rightarrow> error + int \<times> int \<times> int" where
  "gregorian_to_jalali_ymd gy gm gd =
     (case gregorian_day_no gy gm gd of Inl e \<Rightarrow> Inl e
      | Inr g_day_no \<Rightarrow> (let j_day_no = g_day_no - 79 in jalali_of_day_no j_day_no))"

definition GregorianToJalali :: "timestamp_t \<Rightarrow> error + string" where
  "GregorianToJalali gregorian_timestamp =
     (let gregorian_date = Timestamp_GetDate gregorian_timestamp;
          gregorian_time = Timestamp_GetTime gregorian_timestamp;
          (gy, gm, gd) = Date_Convert gregorian_date
      in case gregorian_to_jalali_ymd gy gm gd of Inl e \<Rightarrow> Inl e
         | Inr (jy, jm, jd) \<Rightarrow>
      let (hour, minute, second, micros) = Time_Convert gregorian_time
      in if hour = 0 \<and> minute = 0 \<and> second = 0 \<and> micros = 0
         then Inr (snprintf 25 (fmt_d 4 jy @ ''-'' @ fmt_d 2 jm @ ''-'' @ fmt_d 2 jd))
         else Inr (snprintf 25 (fmt_d 4 jy @ ''-'' @ fmt_d 2 jm @ ''-'' @ fmt_d 2 jd @ '' ''
                                  @ fmt_d 2 hour @ '':'' @ fmt_d 2 minute @ '':''
                                  @ fmt_d 2 second)))"

section \<open>The output format in the spec's words\<close>

text \<open>
  Section 6 of the spec fixes the output as a zero-padded year of four digits and
  months, days, hours, minutes and seconds of two digits. These two functions write
  that layout digit by digit, for comparison with what the model of \<^verbatim>\<open>snprintf\<close>
  produces; a year above 9999 keeps all its digits.
\<close>

definition two_digits :: "int \<Rightarrow> string" where
  "two_digits x = [digit_char (nat x div 10), digit_char (nat x mod 10)]"

definition year_digits :: "int \<Rightarrow> string" where
  "year_digits y =
     (if y < 10000
      then [digit_char (nat y div 1000), digit_char (nat y div 100 mod 10),
            digit_char (nat y div 10 mod 10), digit_char (nat y mod 10)]
      else dec (nat y))"

text \<open>
  The first day whose Jalali day number is not negative: 1600-03-20, day 1 of the
  Jalali year 979.
\<close>

definition on_or_after_anchor :: "timestamp_t \<Rightarrow> bool" where
  "on_or_after_anchor ts =
     stamp_le (1600, 3, 20, 0)
       (d_year (ts_date ts), d_month (ts_date ts), d_day (ts_date ts), ts_micros ts)"

text \<open>
  The equations of the loops are recursive without a pattern, so they are unfolded by
  hand, one round at a time.
\<close>

declare Split.simps [simp del]
declare dec.simps [simp del]
declare add_days.simps [simp del]
declare j_add_months.simps [simp del]
declare g_month_walk.simps [simp del]
declare g_add_months.simps [simp del]
declare j_month_walk.simps [simp del]

section \<open>Auxiliary facts\<close>

subsection \<open>Integers in range, reads in range\<close>

lemma int32_id: "- 2147483648 \<le> x \<Longrightarrow> x < 2147483648 \<Longrightarrow> int32 x = x"
  by (simp add: int32_def)

lemma g_add_months_total:
  "0 \<le> i \<Longrightarrow> gm2 \<le> int (length tbl) \<Longrightarrow> \<exists>r. g_add_months tbl i gm2 acc = Inr r"
proof (induction tbl i gm2 acc rule: g_add_months.induct)
  case (1 tbl i gm2 g_day_no)
  show ?case
  proof (cases "i < gm2")
    case True
    with "1.prems" have rd: "at tbl i = Inr (tbl ! nat i)"
      by (simp add: at_def)
    from "1.IH" [OF True rd] "1.prems" True obtain r
      where "g_add_months tbl (i + 1) gm2 (g_day_no + tbl ! nat i) = Inr r"
      by auto
    with True rd show ?thesis
      by (subst g_add_months.simps) simp
  next
    case False
    then show ?thesis
      by (subst g_add_months.simps) simp
  qed
qed

lemma j_month_walk_total:
  "0 \<le> i \<Longrightarrow> \<exists>r. j_month_walk i d = Inr r"
proof (induction i d rule: j_month_walk.induct)
  case (1 i j_day_no)
  show ?case
  proof (cases "i < 11")
    case True
    with "1.prems" have rd: "at j_days_in_month i = Inr (j_days_in_month ! nat i)"
      by (simp add: at_def j_days_in_month_def)
    show ?thesis
    proof (cases "j_day_no \<ge> j_days_in_month ! nat i")
      case ge: True
      from "1.IH" [OF True rd ge] "1.prems" obtain r
        where "j_month_walk (i + 1) (j_day_no - j_days_in_month ! nat i) = Inr r"
        by auto
      with True rd ge show ?thesis
        by (subst j_month_walk.simps) simp
    next
      case False
      with True rd show ?thesis
        by (subst j_month_walk.simps) simp
    qed
  next
    case False
    then show ?thesis
      by (subst j_month_walk.simps) simp
  qed
qed

lemma gregorian_day_no_total:
  assumes "1 \<le> gm" "gm \<le> 12"
  shows "\<exists>r. gregorian_day_no gy gm gd = Inr r"
proof -
  have gm2: "int32 (gm - 1) = gm - 1"
    using assms by (simp add: int32_id)
  have len: "gm - 1 \<le> int (length (g_days_in_month gy))"
    using assms by (simp add: g_days_in_month_def)
  define g0 where "g0 = int32 (365 * int32 (gy - 1600) + (int32 (gy - 1600) + 3) sdiv 4
      - (int32 (gy - 1600) + 99) sdiv 100 + (int32 (gy - 1600) + 399) sdiv 400)"
  obtain g1 where g1: "g_add_months (g_days_in_month gy) 0 (gm - 1) g0 = Inr g1"
    using g_add_months_total [OF _ len, of 0 g0] by auto
  show ?thesis
    unfolding gregorian_day_no_def Let_def gm2 g0_def [symmetric] g1
    by simp
qed

lemma jalali_of_day_no_total: "\<exists>r. jalali_of_day_no n = Inr r"
  unfolding jalali_of_day_no_def Let_def
  using j_month_walk_total [of 0]
  apply (simp split: prod.splits sum.splits)
  by (metis Inl_Inr_False)

lemma gregorian_to_jalali_ymd_total:
  assumes "1 \<le> gm" "gm \<le> 12"
  shows "\<exists>r. gregorian_to_jalali_ymd gy gm gd = Inr r"
proof -
  obtain g where "gregorian_day_no gy gm gd = Inr g"
    using gregorian_day_no_total [OF assms] by blast
  then show ?thesis
    using jalali_of_day_no_total [of "g - 79"]
    by (simp add: gregorian_to_jalali_ymd_def)
qed

subsection \<open>The host's dates and times\<close>

lemma add_days_0: "add_days d 0 = d"
  by (subst add_days.simps) simp

lemma FromDatetime_in_day:
  assumes "0 \<le> t" "t < MICROS_PER_DAY"
  shows "Timestamp_FromDatetime d t =
           (if in_timestamp_range \<lparr>ts_date = d, ts_micros = t\<rparr>
            then Inr \<lparr>ts_date = d, ts_micros = t\<rparr> else Inl ConversionError)"
proof -
  from assms have "t div MICROS_PER_DAY = 0" "t mod MICROS_PER_DAY = t"
    by simp_all
  then show ?thesis
    by (simp add: Timestamp_FromDatetime_def add_days_0)
qed

lemma Date_FromDate_Inr:
  "Date_FromDate gy gm gd = Inr d \<Longrightarrow> Date_Convert d = (gy, gm, gd)"
  by (auto simp: Date_FromDate_def Date_Convert_def split: if_splits)

lemma Time_Convert_end_of_day: "Time_Convert (Time_FromTime 23 59 59) = (23, 59, 59, 0)"
  by (simp add: Time_Convert_def Time_FromTime_def MICROS_PER_HOUR_def MICROS_PER_MINUTE_def
      MICROS_PER_SEC_def Let_def)


subsection \<open>The time part\<close>

lemma parse_time_absent:
  "length ps \<le> 1 \<Longrightarrow> parse_time ps = Inr (0, 0, 0)"
  by (simp add: parse_time_def)

lemma parse_time_present:
  assumes "at ps 1 = Inr tp"
  shows "parse_time ps =
     (let time_parts = Split tp CHR '':'' in
      if length time_parts \<ge> 2
      then (case stoi (time_parts ! 0) of Inl e \<Rightarrow> Inl e | Inr hour \<Rightarrow>
           (case stoi (time_parts ! 1) of Inl e \<Rightarrow> Inl e | Inr minute \<Rightarrow>
            if length time_parts = 3
            then (case stoi (time_parts ! 2) of Inl e \<Rightarrow> Inl e | Inr second \<Rightarrow>
                    Inr (hour, minute, second))
            else Inr (hour, minute, 0)))
      else Inr (0, 0, 0))"
proof -
  from assms have "length ps > 1"
    by (auto simp: at_def split: if_splits)
  with assms show ?thesis
    by (auto simp: parse_time_def Let_def at_def split: sum.splits)
qed

subsection \<open>Division that truncates\<close>

text \<open>The leap year rule of lines 17 to 19 is the host's rule.\<close>

lemma smod_eq_0_iff_dvd: "(y::int) smod n = 0 \<longleftrightarrow> n dvd y"
  by (cases "y = 0") (auto simp: signed_modulo_int_def sgn_if dvd_eq_mod_eq_0 [symmetric])

lemma IsLeapYear_Date_IsLeapYear: "IsLeapYear y = Date_IsLeapYear y"
proof -
  have a: "(400::int) dvd y \<Longrightarrow> 4 dvd y" and b: "(400::int) dvd y \<Longrightarrow> 100 dvd y"
    by (auto elim: dvd_trans [rotated])
  show ?thesis
    unfolding IsLeapYear_def Date_IsLeapYear_def smod_eq_0_iff_dvd using a b by blast
qed

text \<open>On numbers that are not negative, \<open>sdiv\<close> and \<open>smod\<close> are \<open>div\<close> and \<open>mod\<close>.\<close>

lemma sdiv_nonneg: "0 \<le> a \<Longrightarrow> 0 \<le> b \<Longrightarrow> a sdiv b = a div (b::int)"
  by (auto simp: signed_divide_int_def sgn_if)

lemma smod_nonneg: "0 \<le> a \<Longrightarrow> 0 \<le> b \<Longrightarrow> a smod b = a mod (b::int)"
  by (rule smod_mod_positive)

lemma div_unique_int: "0 \<le> r \<Longrightarrow> r < c \<Longrightarrow> (c * a + r) div c = (a::int)"
  by (cases "c = 0") simp_all

lemma mod_unique_int: "0 \<le> r \<Longrightarrow> r < c \<Longrightarrow> (c * a + r) mod c = (r::int)"
  by simp


subsection \<open>The Jalali day number and its inverse\<close>

text \<open>
  From day number 0 on, lines 168 to 185 and lines 37 to 46 are inverse to each other:
  the fields computed from a day number give that day number back.
\<close>

lemma j_days_at:
  assumes "0 \<le> i" "i < 11"
  shows "at j_days_in_month i = Inr (if i < 6 then 31 else 30)"
proof -
  from assms have "i = 0 \<or> i = 1 \<or> i = 2 \<or> i = 3 \<or> i = 4 \<or> i = 5 \<or> i = 6 \<or> i = 7
      \<or> i = 8 \<or> i = 9 \<or> i = 10"
    by arith
  then show ?thesis
    by (elim disjE) (simp_all add: at_def j_days_in_month_def)
qed

lemma j_month_walk_spec:
  assumes "0 \<le> i" "i \<le> 11" "0 \<le> d"
  shows "\<exists>i' d'. j_month_walk i d = Inr (i', d') \<and> i \<le> i' \<and> i' \<le> 11 \<and> 0 \<le> d' \<and>
           (i' < 11 \<longrightarrow> d' < (if i' < 6 then 31 else 30)) \<and>
           (if i \<le> 6 then 31 * i else 186 + 30 * (i - 6)) + d
             = (if i' \<le> 6 then 31 * i' else 186 + 30 * (i' - 6)) + d'"
  using assms
proof (induction i d rule: j_month_walk.induct)
  case (1 i j_day_no)
  show ?case
  proof (cases "i < 11")
    case True
    with "1.prems" have rd: "at j_days_in_month i = Inr (if i < 6 then 31 else 30)"
      by (simp add: j_days_at)
    show ?thesis
    proof (cases "j_day_no \<ge> (if i < 6 then 31 else 30)")
      case ge: True
      have "\<exists>i' d'. j_month_walk (i + 1) (j_day_no - (if i < 6 then 31 else 30)) = Inr (i', d')
          \<and> i + 1 \<le> i' \<and> i' \<le> 11 \<and> 0 \<le> d' \<and>
           (i' < 11 \<longrightarrow> d' < (if i' < 6 then 31 else 30)) \<and>
           (if i + 1 \<le> 6 then 31 * (i + 1) else 186 + 30 * (i + 1 - 6))
              + (j_day_no - (if i < 6 then 31 else 30))
             = (if i' \<le> 6 then 31 * i' else 186 + 30 * (i' - 6)) + d'"
        using "1.IH" [OF True rd ge] "1.prems" True ge by simp
      then obtain i' d' where w: "j_month_walk (i + 1) (j_day_no - (if i < 6 then 31 else 30)) = Inr (i', d')"
        and b: "i + 1 \<le> i'" "i' \<le> 11" "0 \<le> d'" "i' < 11 \<longrightarrow> d' < (if i' < 6 then 31 else 30)"
        and e: "(if i + 1 \<le> 6 then 31 * (i + 1) else 186 + 30 * (i + 1 - 6))
              + (j_day_no - (if i < 6 then 31 else 30))
             = (if i' \<le> 6 then 31 * i' else 186 + 30 * (i' - 6)) + d'"
        by blast
      have s: "j_month_walk i j_day_no = Inr (i', d')"
        using True rd ge w by (subst j_month_walk.simps) simp
      have e': "(if i \<le> 6 then 31 * i else 186 + 30 * (i - 6)) + j_day_no
             = (if i' \<le> 6 then 31 * i' else 186 + 30 * (i' - 6)) + d'"
        using e by (simp split: if_splits)
      from s b e' show ?thesis
        by auto
    next
      case False
      with True rd have s: "j_month_walk i j_day_no = Inr (i, j_day_no)"
        by (subst j_month_walk.simps) simp
      from s False True "1.prems" show ?thesis
        by auto
    qed
  next
    case False
    then have s: "j_month_walk i j_day_no = Inr (i, j_day_no)"
      by (subst j_month_walk.simps) simp
    from s False "1.prems" show ?thesis
      by auto
  qed
qed

lemma j_add_months_spec:
  assumes "1 \<le> i" "i \<le> jm" "jm \<le> 12" "- 2147483648 \<le> acc"
    "acc + 31 * (jm - i) < 2147483648"
  shows "j_add_months i jm acc
           = acc + (if jm - 1 \<le> 6 then 31 * (jm - 1) else 186 + 30 * (jm - 1 - 6))
                 - (if i - 1 \<le> 6 then 31 * (i - 1) else 186 + 30 * (i - 1 - 6))"
  using assms
proof (induction i jm acc rule: j_add_months.induct)
  case (1 i jm j_day_no)
  show ?case
  proof (cases "i < jm")
    case True
    have w: "int32 (j_day_no + (if i \<le> 6 then 31 else 30)) = j_day_no + (if i \<le> 6 then 31 else 30)"
      using "1.prems" True by (simp add: int32_id)
    have "j_add_months (i + 1) jm (j_day_no + (if i \<le> 6 then 31 else 30))
           = (j_day_no + (if i \<le> 6 then 31 else 30))
              + (if jm - 1 \<le> 6 then 31 * (jm - 1) else 186 + 30 * (jm - 1 - 6))
              - (if i + 1 - 1 \<le> 6 then 31 * (i + 1 - 1) else 186 + 30 * (i + 1 - 1 - 6))"
      using "1.IH" [OF True] "1.prems" True unfolding w
      by (simp split: if_splits)
    then show ?thesis
      using True w by (subst j_add_months.simps) (simp split: if_splits)
  next
    case False
    with "1.prems" have "i = jm" by simp
    then show ?thesis
      by (subst j_add_months.simps) simp
  qed
qed


lemma jalali_of_day_no_spec:
  assumes "0 \<le> n" "n < 2000000000"
  shows "\<exists>jy jm jd. jalali_of_day_no n = Inr (jy, jm, jd) \<and> 979 \<le> jy \<and> jy \<le> 979 + n div 365 \<and>
           1 \<le> jm \<and> jm \<le> 12 \<and> 1 \<le> jd \<and> jd \<le> 31 \<and> jalali_day_no jy jm jd = n"
proof -
  define np where "np = n div 12053"
  define r where "r = n mod 12053"
  define q where "q = r div 1461"
  define r2 where "r2 = r mod 1461"
  define k where "k = (if r2 \<ge> 366 then (r2 - 1) div 365 else 0)"
  define r3 where "r3 = (if r2 \<ge> 366 then (r2 - 1) mod 365 else r2)"
  have n: "n = 12053 * np + r" and r: "0 \<le> r" "r < 12053"
    by (simp_all add: np_def r_def)
  have rq: "r = 1461 * q + r2" and r2: "0 \<le> r2" "r2 < 1461"
    by (simp_all add: q_def r2_def)
  have np0: "0 \<le> np"
    using assms by (simp add: np_def pos_imp_zdiv_nonneg_iff)
  have q: "0 \<le> q" "q \<le> 8"
    using r rq r2 by arith+
  have r2k: "r2 = 365 * k + r3 + (if k = 0 then 0 else 1)" and k: "0 \<le> k" "k \<le> 3"
    and r3: "0 \<le> r3" "r3 \<le> 365" "k \<noteq> 0 \<longrightarrow> r3 \<le> 364"
    and kif: "r2 \<ge> 366 \<longleftrightarrow> k \<noteq> 0"
    using r2 unfolding k_def r3_def by (auto split: if_splits)
  have qk: "4 * q + k \<le> 32"
    using r rq r2 r2k k r3 q by (auto split: if_splits)
  define jy where "jy = 979 + 33 * np + 4 * q + k"
  have npb: "np < 170000"
    using assms n r by arith
  have s1: "n sdiv 12053 = np" "n smod 12053 = r"
    using assms by (simp_all add: sdiv_nonneg smod_nonneg np_def r_def)
  have s2: "r sdiv 1461 = q" "r smod 1461 = r2"
    using r by (simp_all add: sdiv_nonneg smod_nonneg q_def r2_def)
  have s3: "r2 \<ge> 366 \<Longrightarrow> (r2 - 1) sdiv 365 = k" "r2 \<ge> 366 \<Longrightarrow> (r2 - 1) smod 365 = r3"
    by (simp_all add: sdiv_nonneg smod_nonneg k_def r3_def)
  obtain i' d' where w: "j_month_walk 0 r3 = Inr (i', d')"
    and i': "0 \<le> i'" "i' \<le> 11" and d': "0 \<le> d'" "i' < 11 \<longrightarrow> d' < (if i' < 6 then 31 else 30)"
    and cum: "r3 = (if i' \<le> 6 then 31 * i' else 186 + 30 * (i' - 6)) + d'"
    using j_month_walk_spec [of 0 r3] r3 by auto
  have d31: "d' \<le> 30"
    using d' cum r3 i' by (auto split: if_splits)
  have fwd: "jalali_of_day_no n = Inr (jy, i' + 1, d' + 1)"
  proof (cases "r2 \<ge> 366")
    case True
    with kif have k0: "k \<noteq> 0" by simp
    show ?thesis
      using True s3 [OF True] w i' d' d31 np0 npb q k
      by (simp add: jalali_of_day_no_def Let_def s1 s2 int32_id jy_def)
  next
    case False
    with kif have k0: "k = 0" by simp
    from False have "r3 = r2" by (simp add: r3_def)
    with False w i' d' d31 np0 npb q k0 show ?thesis
      by (simp add: jalali_of_day_no_def Let_def s1 s2 int32_id jy_def)
  qed
  have jy': "jy - 979 = 33 * np + (4 * q + k)"
    by (simp add: jy_def)
  have b0: "0 \<le> 4 * q + k" "0 \<le> 33 * np + (4 * q + k)"
    using q k np0 by simp_all
  have t1: "(jy - 979) sdiv 33 = np" "(jy - 979) smod 33 = 4 * q + k"
    unfolding jy' using b0 qk
    by (simp_all add: sdiv_nonneg smod_nonneg div_unique_int mod_unique_int)
  have "(4 * q + k + 3) div 4 = q + (k + 3) div 4"
    by simp
  also have "(k + 3) div 4 = (if k = 0 then 0 else 1)"
    using k by auto
  finally have t2: "(4 * q + k + 3) sdiv 4 = q + (if k = 0 then 0 else 1)"
    using b0 by (simp add: sdiv_nonneg)
  define base where "base = 12053 * np + 1461 * q + 365 * k + (if k = 0 then 0 else (1::int))"
  have baseb: "0 \<le> base" "base \<le> n"
    using np0 q k n rq r2k r3 by (auto simp: base_def split: if_splits)
  have w1: "int32 (jy - 979) = jy - 979"
    unfolding jy' using b0 npb qk by (simp add: int32_id)
  have e1: "365 * (jy - 979) + ((jy - 979) sdiv 33) * 8 + (((jy - 979) smod 33 + 3) sdiv 4) = base"
    unfolding t1 t2 by (simp add: jy' base_def)
  have w2: "int32 base = base"
    using baseb assms by (simp add: int32_id)
  have am: "j_add_months 1 (i' + 1) base
              = base + (if i' \<le> 6 then 31 * i' else 186 + 30 * (i' - 6))"
    using j_add_months_spec [of 1 "i' + 1" base] i' baseb assms by simp
  have tot: "base + (if i' \<le> 6 then 31 * i' else 186 + 30 * (i' - 6)) + d' = n"
    using cum n rq r2k by (simp add: base_def)
  have bwd: "jalali_day_no jy (i' + 1) (d' + 1) = n"
    unfolding jalali_day_no_def Let_def w1 e1 w2 am
    using tot assms by (simp add: int32_id)
  have jyb: "jy \<le> 979 + n div 365"
  proof -
    have le: "365 * (33 * np + 4 * q + k) \<le> n"
      using baseb np0 q k by (auto simp: base_def split: if_splits)
    have "(365 * (33 * np + 4 * q + k)) div 365 \<le> n div 365"
      by (rule zdiv_mono1 [OF le]) simp
    then show ?thesis by (simp add: jy_def)
  qed
  from fwd bwd i' d' d31 np0 q k jyb show ?thesis
    by (auto simp: jy_def)
qed

subsection \<open>The Gregorian day number and its inverse\<close>

text \<open>
  A year from 1600 on is \<open>1600 + 400 a + 100 c + 4 b + k\<close>; the reductions of lines 50 to
  70 find \<open>a\<close>, \<open>c\<close>, \<open>b\<close> and \<open>k\<close> again, with the leap flag of that year, and leave the
  day of the year for the month walk.
\<close>

lemma gregorian_of_day_no_spec:
  assumes a: "0 \<le> a" and c: "0 \<le> c" "c \<le> 3" and b: "0 \<le> b" "b \<le> 24" and k: "0 \<le> k" "k \<le> 3"
    and doy: "0 \<le> doy" "doy \<le> 364 + (if L then 1 else 0)"
    and L: "L \<longleftrightarrow> (k = 0 \<and> (b \<noteq> 0 \<or> c = 0))"
  shows "gregorian_of_day_no
           (146097 * a + 36524 * c + 1461 * b + 365 * k + (if k = 0 then 0 else 1)
              - (if b = 0 \<and> k = 0 then 0 else 1) + (if c = 0 \<and> b = 0 \<and> k = 0 then 0 else 1) + doy)
         = (case g_month_walk L 1 doy of
              (gm, d) \<Rightarrow> (1600 + 400 * a + 100 * c + 4 * b + k, gm, d + 1))"
proof -
  define S where "S = 365 * k + (if k = 0 then 0 else 1) + doy"
  define T where "T = 1461 * b + S"
  define B where "B = 36524 * c + 1461 * b + 365 * k + (if k = 0 then 0 else 1)
              - (if b = 0 \<and> k = 0 then 0 else 1) + (if c = 0 \<and> b = 0 \<and> k = 0 then 0 else 1) + doy"
  define g0 where "g0 = 146097 * a + B"
  have g0: "146097 * a + 36524 * c + 1461 * b + 365 * k + (if k = 0 then 0 else 1)
              - (if b = 0 \<and> k = 0 then 0 else 1) + (if c = 0 \<and> b = 0 \<and> k = 0 then 0 else 1) + doy = g0"
    by (simp add: g0_def B_def)
  have Sb: "0 \<le> S" "S < 1461" and Sk: "S \<ge> 366 \<longleftrightarrow> k \<noteq> 0"
    using k doy L by (auto simp: S_def split: if_splits)
  have Tb: "0 \<le> T" "T \<le> 36524"
    using Sb b by (simp_all add: T_def)
  have Bb: "0 \<le> B" "B < 146097"
    using c b k doy L by (auto simp: B_def split: if_splits)
  have f1: "g0 sdiv 146097 = a" "g0 smod 146097 = B"
    using a Bb by (simp_all add: g0_def sdiv_nonneg smod_nonneg div_unique_int mod_unique_int)
  have f3: "T sdiv 1461 = b" "T smod 1461 = S"
    using b Sb by (simp_all add: T_def sdiv_nonneg smod_nonneg div_unique_int mod_unique_int)
  have f4: "(S - 1) sdiv 365 = k" "(S - 1) smod 365 = doy" if "k \<noteq> 0"
  proof -
    from that L have nl: "\<not> L" by simp
    from that have e: "S - 1 = 365 * k + doy" by (simp add: S_def)
    show "(S - 1) sdiv 365 = k" "(S - 1) smod 365 = doy"
      unfolding e using k doy nl
      by (simp_all add: sdiv_nonneg smod_nonneg div_unique_int mod_unique_int)
  qed
  have S0: "S = doy" if "k = 0"
    using that by (simp add: S_def)
  have stage2:
    "(let gy = gy1 + 4 * (T sdiv 1461);
          g_day_no = T smod 1461;
          (gy, g_day_no, leap) =
             (if g_day_no \<ge> 366
              then (gy + (g_day_no - 1) sdiv 365, (g_day_no - 1) smod 365, False)
              else (gy, g_day_no, leap1));
          (gm, g_day_no) = g_month_walk leap 1 g_day_no;
          gd = g_day_no + 1
      in (gy, gm, gd))
     = (case g_month_walk L 1 doy of (gm, d) \<Rightarrow> (gy1 + 4 * b + k, gm, d + 1))"
    if "k = 0 \<Longrightarrow> leap1 = L" for gy1 leap1
  proof (cases "k = 0")
    case True
    with Sk have "\<not> S \<ge> 366" by simp
    with True that show ?thesis
      by (simp add: Let_def f3 S0 split: prod.splits)
  next
    case False
    with Sk have "S \<ge> 366" by simp
    moreover from False L have "\<not> L" by simp
    ultimately show ?thesis
      using False by (simp add: Let_def f3 f4 split: prod.splits)
  qed
  show ?thesis
  proof (cases "c = 0")
    case True
    then have BT: "B = T"
      by (auto simp: B_def T_def S_def)
    with Tb have lt: "\<not> B \<ge> 36525" by simp
    have "gregorian_of_day_no g0 = (case g_month_walk L 1 doy of
              (gm, d) \<Rightarrow> (1600 + 400 * a + 4 * b + k, gm, d + 1))"
      unfolding gregorian_of_day_no_def f1
      using lt True L stage2 [of True "1600 + 400 * a"]
      by (simp add: BT Let_def)
    with True show ?thesis
      unfolding g0 by simp
  next
    case False
    with c have c1: "1 \<le> c" by simp
    show ?thesis
    proof (cases "b = 0 \<and> k = 0")
      case True
      with False L have nl: "\<not> L" by simp
      from True have B1: "B - 1 = 36524 * c + doy" and T: "T = doy"
        using False by (simp_all add: B_def T_def S_def)
      have ge: "B \<ge> 36525"
        using B1 c1 doy by simp
      have f2: "(B - 1) sdiv 36524 = c" "(B - 1) smod 36524 = doy"
        unfolding B1 using c doy nl
        by (simp_all add: sdiv_nonneg smod_nonneg div_unique_int mod_unique_int)
      have lt: "\<not> doy \<ge> 365"
        using doy nl by simp
      have "gregorian_of_day_no g0 = (case g_month_walk L 1 doy of
              (gm, d) \<Rightarrow> (1600 + 400 * a + 100 * c + 4 * b + k, gm, d + 1))"
        unfolding gregorian_of_day_no_def f1
        using ge lt nl True stage2 [of False "1600 + 400 * a + 100 * c"]
        by (simp add: Let_def f2 T [symmetric])
      then show ?thesis
        unfolding g0 by simp
    next
      case nz: False
      then have B1: "B - 1 = 36524 * c + (T - 1)"
        using False by (auto simp: B_def T_def S_def)
      have T1: "365 \<le> T - 1" "T - 1 < 36524"
        using nz b k doy Tb by (auto simp: T_def S_def split: if_splits)
      have ge: "B \<ge> 36525"
        using B1 c1 T1 by simp
      have f2: "(B - 1) sdiv 36524 = c" "(B - 1) smod 36524 = T - 1"
        unfolding B1 using c T1
        by (simp_all add: sdiv_nonneg smod_nonneg div_unique_int mod_unique_int)
      have lk: "k = 0 \<Longrightarrow> L"
        using nz L by simp
      have "gregorian_of_day_no g0 = (case g_month_walk L 1 doy of
              (gm, d) \<Rightarrow> (1600 + 400 * a + 100 * c + 4 * b + k, gm, d + 1))"
        unfolding gregorian_of_day_no_def f1
        using ge T1 lk stage2 [of True "1600 + 400 * a + 100 * c"]
        by (simp add: Let_def f2)
      then show ?thesis
        unfolding g0 by simp
    qed
  qed
qed

lemma g_add_months_sum:
  assumes "0 \<le> i" "i \<le> gm2" "gm2 \<le> int (length tbl)"
  shows "g_add_months tbl i gm2 acc = Inr (acc + sum_list (take (nat (gm2 - i)) (drop (nat i) tbl)))"
  using assms
proof (induction tbl i gm2 acc rule: g_add_months.induct)
  case (1 tbl i gm2 g_day_no)
  show ?case
  proof (cases "i < gm2")
    case True
    with "1.prems" have lt: "nat i < length tbl"
      by simp
    with "1.prems" have rd: "at tbl i = Inr (tbl ! nat i)"
      by (simp add: at_def)
    have n1: "nat (gm2 - i) = Suc (nat (gm2 - (i + 1)))" and n2: "nat (i + 1) = Suc (nat i)"
      using True "1.prems" by simp_all
    have "take (nat (gm2 - i)) (drop (nat i) tbl)
            = tbl ! nat i # take (nat (gm2 - (i + 1))) (drop (nat (i + 1)) tbl)"
      unfolding n1 n2 using lt by (simp add: Cons_nth_drop_Suc [symmetric])
    moreover have "g_add_months tbl (i + 1) gm2 (g_day_no + tbl ! nat i)
            = Inr (g_day_no + tbl ! nat i
                    + sum_list (take (nat (gm2 - (i + 1))) (drop (nat (i + 1)) tbl)))"
      using "1.IH" [OF True rd] "1.prems" True by simp
    ultimately show ?thesis
      using True rd by (subst g_add_months.simps) simp
  next
    case False
    with "1.prems" show ?thesis
      by (subst g_add_months.simps) simp
  qed
qed

lemma month_cases:
  "1 \<le> gm \<Longrightarrow> gm \<le> 12 \<Longrightarrow>
   gm = 1 \<or> gm = 2 \<or> gm = 3 \<or> gm = 4 \<or> gm = 5 \<or> gm = 6 \<or> gm = 7 \<or> gm = 8 \<or> gm = 9
     \<or> gm = 10 \<or> gm = 11 \<or> gm = (12::int)"
  by arith

lemma g_month_walk_stop: "d < month_days L m \<Longrightarrow> g_month_walk L m d = (m, d)"
  by (subst g_month_walk.simps) simp

lemma g_month_walk_step:
  "month_days L m \<le> d \<Longrightarrow> g_month_walk L m d = g_month_walk L (m + 1) (d - month_days L m)"
  by (subst g_month_walk.simps) simp

lemma month_days_numeral:
  "month_days L 1 = 31" "month_days L 2 = (if L then 29 else 28)" "month_days L 3 = 31"
  "month_days L 4 = 30" "month_days L 5 = 31" "month_days L 6 = 30" "month_days L 7 = 31"
  "month_days L 8 = 31" "month_days L 9 = 30" "month_days L 10 = 31" "month_days L 11 = 30"
  "month_days L 12 = 31"
  by (simp_all add: month_days_def signed_modulo_int_def)

lemma days_before_month:
  "sum_list (take (nat (1 - 1)) (g_days_in_month gy)) = 0"
  "sum_list (take (nat (2 - 1)) (g_days_in_month gy)) = 31"
  "sum_list (take (nat (3 - 1)) (g_days_in_month gy)) = (if Date_IsLeapYear gy then 60 else 59)"
  "sum_list (take (nat (4 - 1)) (g_days_in_month gy)) = (if Date_IsLeapYear gy then 91 else 90)"
  "sum_list (take (nat (5 - 1)) (g_days_in_month gy)) = (if Date_IsLeapYear gy then 121 else 120)"
  "sum_list (take (nat (6 - 1)) (g_days_in_month gy)) = (if Date_IsLeapYear gy then 152 else 151)"
  "sum_list (take (nat (7 - 1)) (g_days_in_month gy)) = (if Date_IsLeapYear gy then 182 else 181)"
  "sum_list (take (nat (8 - 1)) (g_days_in_month gy)) = (if Date_IsLeapYear gy then 213 else 212)"
  "sum_list (take (nat (9 - 1)) (g_days_in_month gy)) = (if Date_IsLeapYear gy then 244 else 243)"
  "sum_list (take (nat (10 - 1)) (g_days_in_month gy)) = (if Date_IsLeapYear gy then 274 else 273)"
  "sum_list (take (nat (11 - 1)) (g_days_in_month gy)) = (if Date_IsLeapYear gy then 305 else 304)"
  "sum_list (take (nat (12 - 1)) (g_days_in_month gy)) = (if Date_IsLeapYear gy then 335 else 334)"
  by (simp_all add: g_days_in_month_def)

lemma g_month_walk_inverse:
  assumes "1 \<le> gm" "gm \<le> 12" "1 \<le> gd" "gd \<le> Date_MonthDays gy gm"
  shows "g_month_walk (Date_IsLeapYear gy) 1
           (sum_list (take (nat (gm - 1)) (g_days_in_month gy)) + (gd - 1)) = (gm, gd - 1)"
proof (cases "Date_IsLeapYear gy")
  case True
  show ?thesis
    using month_cases [OF assms(1,2)] assms(3,4)
    by (elim disjE)
       (simp_all only: days_before_month True if_True, 
        simp_all add: Date_MonthDays_def True month_days_numeral g_month_walk_step g_month_walk_stop)
next
  case False
  show ?thesis
    using month_cases [OF assms(1,2)] assms(3,4)
    by (elim disjE)
       (simp_all only: days_before_month False if_False, 
        simp_all add: Date_MonthDays_def False month_days_numeral g_month_walk_step g_month_walk_stop)
qed

lemma doy_bounds:
  assumes "1 \<le> gm" "gm \<le> 12" "1 \<le> gd" "gd \<le> Date_MonthDays gy gm"
  shows "0 \<le> sum_list (take (nat (gm - 1)) (g_days_in_month gy)) + (gd - 1)"
    and "sum_list (take (nat (gm - 1)) (g_days_in_month gy)) + (gd - 1)
           \<le> 364 + (if Date_IsLeapYear gy then 1 else 0)"
    and "3 < gm \<or> (gm = 3 \<and> 20 \<le> gd) \<Longrightarrow>
           79 \<le> sum_list (take (nat (gm - 1)) (g_days_in_month gy)) + (gd - 1)
                  + (if Date_IsLeapYear gy then 0 else 1)"
proof -
  show "0 \<le> sum_list (take (nat (gm - 1)) (g_days_in_month gy)) + (gd - 1)"
    using month_cases [OF assms(1,2)] assms(3,4)
    by (elim disjE) (simp_all only: days_before_month, simp_all)
  show "sum_list (take (nat (gm - 1)) (g_days_in_month gy)) + (gd - 1)
           \<le> 364 + (if Date_IsLeapYear gy then 1 else 0)"
    using month_cases [OF assms(1,2)] assms(3,4)
    by (elim disjE)
       (simp_all only: days_before_month, simp_all add: Date_MonthDays_def split: if_splits)
  show "79 \<le> sum_list (take (nat (gm - 1)) (g_days_in_month gy)) + (gd - 1)
                  + (if Date_IsLeapYear gy then 0 else 1)"
    if "3 < gm \<or> (gm = 3 \<and> 20 \<le> gd)"
    using month_cases [OF assms(1,2)] assms(3,4) that
    by (elim disjE)
       (simp_all only: days_before_month, simp_all add: Date_MonthDays_def split: if_splits)
qed

lemma gregorian_round:
  assumes gy: "1600 \<le> gy" "gy \<le> 5000000" and gm: "1 \<le> gm" "gm \<le> 12"
    and gd: "1 \<le> gd" "gd \<le> Date_MonthDays gy gm"
  shows "\<exists>g. gregorian_day_no gy gm gd = Inr g \<and> 0 \<le> g \<and> g \<le> 366 * (gy - 1599) \<and>
           gregorian_of_day_no g = (gy, gm, gd) \<and>
           (1600 < gy \<or> 3 < gm \<or> (gm = 3 \<and> 20 \<le> gd) \<longrightarrow> 79 \<le> g)"
proof -
  define y where "y = gy - 1600"
  define a where "a = y div 400"
  define c where "c = (y mod 400) div 100"
  define b where "b = (y mod 100) div 4"
  define k where "k = y mod 4"
  define L where "L = Date_IsLeapYear gy"
  define doy where "doy = sum_list (take (nat (gm - 1)) (g_days_in_month gy)) + (gd - 1)"
  have y0: "0 \<le> y" "y \<le> 5000000"
    using gy by (simp_all add: y_def)
  have m100: "y mod 100 = 4 * b + k"
  proof -
    have "(y mod 100) mod 4 = y mod 4"
      by (simp add: mod_mod_cancel)
    then show ?thesis
      unfolding b_def k_def using mult_div_mod_eq [of 4 "y mod 100"] by simp
  qed
  have m400: "y mod 400 = 100 * c + (4 * b + k)"
  proof -
    have "(y mod 400) mod 100 = y mod 100"
      by (simp add: mod_mod_cancel)
    then show ?thesis
      unfolding c_def m100 [symmetric] using mult_div_mod_eq [of 100 "y mod 400"] by simp
  qed
  have yd: "y = 400 * a + (100 * c + (4 * b + k))"
    unfolding m400 [symmetric] a_def by simp
  have a: "0 \<le> a"
    using y0 by (simp add: a_def pos_imp_zdiv_nonneg_iff)
  have k: "0 \<le> k" "k \<le> 3"
    using pos_mod_bound [of 4 y] by (simp_all add: k_def)
  have b: "0 \<le> b" "b \<le> 24"
  proof -
    have "0 \<le> y mod 100" "y mod 100 \<le> 99"
      using pos_mod_bound [of 100 y] by simp_all
    then show "0 \<le> b" "b \<le> 24"
      unfolding b_def using zdiv_mono1 [of "y mod 100" 99 4]
      by (simp_all add: pos_imp_zdiv_nonneg_iff)
  qed
  have c: "0 \<le> c" "c \<le> 3"
  proof -
    have "0 \<le> y mod 400" "y mod 400 \<le> 399"
      using pos_mod_bound [of 400 y] by simp_all
    then show "0 \<le> c" "c \<le> 3"
      unfolding c_def using zdiv_mono1 [of "y mod 400" 399 100]
      by (simp_all add: pos_imp_zdiv_nonneg_iff)
  qed
  have d4: "(y + 3) div 4 = 100 * a + 25 * c + b + (if k = 0 then 0 else 1)"
  proof -
    have "y + 3 = 4 * (100 * a + 25 * c + b) + (k + 3)"
      by (simp add: yd)
    then have "(y + 3) div 4 = (100 * a + 25 * c + b) + (k + 3) div 4"
      by simp
    moreover have "(k + 3) div 4 = (if k = 0 then 0 else 1)"
      using k by auto
    ultimately show ?thesis by simp
  qed
  have d100: "(y + 99) div 100 = 4 * a + c + (if b = 0 \<and> k = 0 then 0 else 1)"
  proof -
    have "y + 99 = 100 * (4 * a + c) + (4 * b + k + 99)"
      by (simp add: yd)
    then have "(y + 99) div 100 = (4 * a + c) + (4 * b + k + 99) div 100"
      by simp
    moreover have "(4 * b + k + 99) div 100 = (if b = 0 \<and> k = 0 then 0 else 1)"
      using k b by auto
    ultimately show ?thesis by simp
  qed
  have d400: "(y + 399) div 400 = a + (if c = 0 \<and> b = 0 \<and> k = 0 then 0 else 1)"
  proof -
    have "y + 399 = 400 * a + (100 * c + 4 * b + k + 399)"
      by (simp add: yd)
    then have "(y + 399) div 400 = a + (100 * c + 4 * b + k + 399) div 400"
      by simp
    moreover have "(100 * c + 4 * b + k + 399) div 400 = (if c = 0 \<and> b = 0 \<and> k = 0 then 0 else 1)"
      using k b c by auto
    ultimately show ?thesis by simp
  qed
  have gy_eq: "gy = 1600 + 400 * a + 100 * c + 4 * b + k"
    using yd by (simp add: y_def)
  have L: "L \<longleftrightarrow> (k = 0 \<and> (b \<noteq> 0 \<or> c = 0))"
  proof -
    have gy': "gy = y + 1600"
      by (simp add: y_def)
    have g4: "gy mod 4 = k"
      unfolding k_def gy' using mod_mult_self1 [of y 400 4] by simp
    have g100: "gy mod 100 = 4 * b + k"
      unfolding m100 [symmetric] gy' using mod_mult_self1 [of y 16 100] by simp
    have g400: "gy mod 400 = 100 * c + (4 * b + k)"
      unfolding m400 [symmetric] gy' using mod_mult_self1 [of y 4 400] by simp
    show ?thesis
      unfolding L_def Date_IsLeapYear_def using gy k b c
      by (auto simp: smod_nonneg g4 g100 g400)
  qed
  have base: "365 * y + (y + 3) div 4 - (y + 99) div 100 + (y + 399) div 400 + doy
      = 146097 * a + 36524 * c + 1461 * b + 365 * k + (if k = 0 then 0 else 1)
              - (if b = 0 \<and> k = 0 then 0 else 1) + (if c = 0 \<and> b = 0 \<and> k = 0 then 0 else 1) + doy"
    unfolding d4 d100 d400 by (simp add: yd)
  define g where "g = 365 * y + (y + 3) div 4 - (y + 99) div 100 + (y + 399) div 400 + doy"
  have doyb: "0 \<le> doy" "doy \<le> 364 + (if L then 1 else 0)"
    unfolding doy_def L_def using doy_bounds(1,2) [OF gm gd] by simp_all
  have ys: "365 * y + (y + 3) div 4 - (y + 99) div 100 + (y + 399) div 400
      = 146097 * a + 36524 * c + 1461 * b + 365 * k + (if k = 0 then 0 else 1)
              - (if b = 0 \<and> k = 0 then 0 else 1) + (if c = 0 \<and> b = 0 \<and> k = 0 then 0 else 1)"
    unfolding d4 d100 d400 by (simp add: yd)
  have ystart: "0 \<le> 365 * y + (y + 3) div 4 - (y + 99) div 100 + (y + 399) div 400"
    "365 * y + (y + 3) div 4 - (y + 99) div 100 + (y + 399) div 400 \<le> 366 * y"
    "0 < y \<Longrightarrow> 366 \<le> 365 * y + (y + 3) div 4 - (y + 99) div 100 + (y + 399) div 400"
  proof -
    show "0 \<le> 365 * y + (y + 3) div 4 - (y + 99) div 100 + (y + 399) div 400"
      unfolding ys using a b c k by (auto split: if_splits)
    show "365 * y + (y + 3) div 4 - (y + 99) div 100 + (y + 399) div 400 \<le> 366 * y"
      unfolding ys using a b c k by (auto simp: yd split: if_splits)
    show "366 \<le> 365 * y + (y + 3) div 4 - (y + 99) div 100 + (y + 399) div 400" if "0 < y"
    proof -
      have a0: "0 \<le> 146097 * a"
        using a by simp
      from that have "a \<noteq> 0 \<or> c \<noteq> 0 \<or> b \<noteq> 0 \<or> k \<noteq> 0"
        by (auto simp: yd)
      then show ?thesis
        unfolding ys using a a0 b c k by (auto split: if_splits)
    qed
  qed
  have w: "int32 (gy - 1600) = y" "int32 (gm - 1) = gm - 1" "int32 (gd - 1) = gd - 1"
    using y0 gm gd by (simp_all add: int32_id y_def Date_MonthDays_def split: if_splits)
  have sd: "(y + 3) sdiv 4 = (y + 3) div 4" "(y + 99) sdiv 100 = (y + 99) div 100"
    "(y + 399) sdiv 400 = (y + 399) div 400"
    using y0 by (simp_all add: sdiv_nonneg)
  have w2: "int32 (365 * y + (y + 3) div 4 - (y + 99) div 100 + (y + 399) div 400)
              = 365 * y + (y + 3) div 4 - (y + 99) div 100 + (y + 399) div 400"
    using ystart y0 by (simp add: int32_id)
  have am: "g_add_months (g_days_in_month gy) 0 (gm - 1) acc
              = Inr (acc + sum_list (take (nat (gm - 1)) (g_days_in_month gy)))" for acc
    using g_add_months_sum [of 0 "gm - 1" "g_days_in_month gy" acc] gm
    by (simp add: g_days_in_month_def)
  have fwd: "gregorian_day_no gy gm gd = Inr g"
    unfolding gregorian_day_no_def Let_def w sd w2 am
    by (simp add: g_def doy_def)
  have "gregorian_of_day_no g = (case g_month_walk L 1 doy of
              (gm, d) \<Rightarrow> (1600 + 400 * a + 100 * c + 4 * b + k, gm, d + 1))"
    unfolding g_def base
    by (rule gregorian_of_day_no_spec [OF a c b k doyb L])
  also have "g_month_walk L 1 doy = (gm, gd - 1)"
    unfolding L_def doy_def by (rule g_month_walk_inverse [OF gm gd])
  finally have bwd: "gregorian_of_day_no g = (gy, gm, gd)"
    by (simp add: gy_eq)
  have gb: "0 \<le> g" "g \<le> 366 * (gy - 1599)"
    using ystart(1,2) doyb by (auto simp: g_def y_def split: if_splits)
  have anchor: "79 \<le> g" if "1600 < gy \<or> 3 < gm \<or> (gm = 3 \<and> 20 \<le> gd)"
  proof (cases "1600 < gy")
    case True
    then have "0 < y" by (simp add: y_def)
    from ystart(3) [OF this] doyb show ?thesis
      by (simp add: g_def)
  next
    case False
    with gy have y: "y = 0" by (simp add: y_def)
    from False gy have "gy = 1600" by simp
    then have "Date_IsLeapYear gy" by (simp add: Date_IsLeapYear_def signed_modulo_int_def)
    with that False doy_bounds(3) [OF gm gd] show ?thesis
      by (simp add: g_def y doy_def)
  qed
  from fwd bwd gb anchor show ?thesis
    by blast
qed

subsection \<open>Printing and reading decimal numbers\<close>

lemma digit_cases:
  "d < 10 \<Longrightarrow> d = 0 \<or> d = 1 \<or> d = 2 \<or> d = 3 \<or> d = 4 \<or> d = 5 \<or> d = 6 \<or> d = 7 \<or> d = 8 \<or> d = (9::nat)"
  by arith

lemma isdigit_digit_char: "d < 10 \<Longrightarrow> isdigit (digit_char d)"
  by (drule digit_cases) (auto simp: isdigit_def digit_char_def)

lemma digit_val_digit_char: "d < 10 \<Longrightarrow> digit_val (digit_char d) = int d"
  by (drule digit_cases) (auto simp: digit_val_def digit_char_def)

lemma isdigit_not_punct:
  "isdigit c \<Longrightarrow> c \<noteq> CHR ''-'' \<and> c \<noteq> CHR '' '' \<and> c \<noteq> CHR '':'' \<and> c \<noteq> CHR ''+'' \<and> \<not> isspace c"
  by (auto simp: isdigit_def isspace_def)

lemma dec_digits: "list_all isdigit (dec n)"
proof (induction n rule: dec.induct)
  case (1 n)
  show ?case
  proof (cases "n < 10")
    case True
    then show ?thesis
      by (subst dec.simps) (simp add: isdigit_digit_char)
  next
    case False
    with "1.IH" show ?thesis
      by (subst dec.simps) (simp add: isdigit_digit_char)
  qed
qed

lemma dec_nonempty: "dec n \<noteq> []"
  by (subst dec.simps) simp

lemma digits_val_snoc: "digits_val (ds @ [c]) = 10 * digits_val ds + digit_val c"
  by (simp add: digits_val_def)

lemma digits_val_dec: "digits_val (dec n) = int n"
proof (induction n rule: dec.induct)
  case (1 n)
  show ?case
  proof (cases "n < 10")
    case True
    then show ?thesis
      by (subst dec.simps) (simp add: digits_val_def digit_val_digit_char)
  next
    case False
    with "1.IH" have "digits_val (dec (n div 10)) = int (n div 10)"
      by simp
    with False show ?thesis
      by (subst dec.simps) (simp add: digits_val_snoc digit_val_digit_char zdiv_int zmod_int)
  qed
qed

lemma digits_val_zeros: "digits_val (replicate k CHR ''0'' @ ds) = digits_val ds"
proof -
  have "foldl (\<lambda>acc c. 10 * acc + digit_val c) 0 (replicate k CHR ''0'') = 0"
    by (induction k) (simp_all add: digit_val_def)
  then show ?thesis
    by (simp add: digits_val_def)
qed

lemma length_dec: "0 < k \<Longrightarrow> n < 10 ^ k \<Longrightarrow> length (dec n) \<le> k"
proof (induction k arbitrary: n)
  case 0
  then show ?case by simp
next
  case (Suc k)
  show ?case
  proof (cases "n < 10")
    case True
    then show ?thesis
      by (subst dec.simps) simp
  next
    case False
    with Suc.prems have k: "0 < k"
      by (cases k) auto
    from Suc.prems have "n div 10 < 10 ^ k"
      by (simp add: less_mult_imp_div_less mult.commute)
    from Suc.IH [OF k this] False show ?thesis
      by (subst dec.simps) simp
  qed
qed

lemma fmt_d_nonneg:
  assumes "0 \<le> x"
  shows "list_all isdigit (fmt_d w x)" "fmt_d w x \<noteq> []" "digits_val (fmt_d w x) = x"
  using assms dec_digits [of "nat x"]
  by (auto simp: fmt_d_def dec_nonempty digits_val_zeros digits_val_dec
      isdigit_def [of "CHR ''0''"] list_all_iff)

lemma stoi_digits:
  assumes "list_all isdigit ds" "ds \<noteq> []" "digits_val ds < 2147483648" "0 \<le> digits_val ds"
  shows "stoi ds = Inr (digits_val ds)"
proof -
  from assms(1,2) have hd: "isdigit (hd ds)"
    by (cases ds) auto
  then have sp: "dropWhile isspace ds = ds"
    using assms(2) isdigit_not_punct [of "hd ds"] by (cases ds) auto
  have tw: "takeWhile isdigit ds = ds"
    using assms(1) by (simp add: list_all_iff)
  show ?thesis
    using assms(2-) hd isdigit_not_punct [of "hd ds"]
    by (simp add: stoi_def Let_def sp tw)
qed

lemma stoi_fmt_d: "0 \<le> x \<Longrightarrow> x < 2147483648 \<Longrightarrow> stoi (fmt_d w x) = Inr x"
  using stoi_digits [of "fmt_d w x"] fmt_d_nonneg [of x w] by simp

lemma length_fmt_d:
  assumes "0 \<le> x" "x < 10 ^ k" "0 < k" "w \<le> k"
  shows "length (fmt_d w x) \<le> k"
proof -
  have "nat x < 10 ^ k"
    using assms(1,2) by (simp add: nat_less_iff)
  from length_dec [OF assms(3) this] assms show ?thesis
    by (simp add: fmt_d_def)
qed

lemma Split_no_delim:
  assumes "s \<noteq> []" "d \<notin> set s"
  shows "Split s d = [s]"
proof -
  from assms(2) have tw: "takeWhile (\<lambda>c. c \<noteq> d) s = s"
    by auto
  from assms(2) have dw: "dropWhile (\<lambda>c. c \<noteq> d) s = []"
    by auto
  have e: "Split [] d = []"
    by (subst Split.simps) simp
  show ?thesis
    using assms(1) by (subst Split.simps) (simp add: tw dw e)
qed

lemma Split_append: "d \<notin> set a \<Longrightarrow> Split (a @ d # rest) d = a # Split rest d"
proof -
  assume "d \<notin> set a"
  then have "takeWhile (\<lambda>c. c \<noteq> d) (a @ d # rest) = a"
    "dropWhile (\<lambda>c. c \<noteq> d) (a @ d # rest) = d # rest"
    by (auto simp: takeWhile_tail dropWhile_append3)
  then show ?thesis
    by (subst Split.simps) simp
qed

lemma digit_char_0: "digit_char 0 = CHR ''0''"
  by (simp add: digit_char_def)

lemma dec_1: "n < 10 \<Longrightarrow> dec n = [digit_char n]"
  by (subst dec.simps) simp

lemma dec_2: "10 \<le> n \<Longrightarrow> n < 100 \<Longrightarrow> dec n = [digit_char (n div 10), digit_char (n mod 10)]"
  by (subst dec.simps) (simp add: dec_1)

lemma dec_3:
  "100 \<le> n \<Longrightarrow> n < 1000 \<Longrightarrow>
   dec n = [digit_char (n div 100), digit_char (n div 10 mod 10), digit_char (n mod 10)]"
  by (subst dec.simps) (simp add: dec_2 div_mult2_eq [symmetric])

lemma dec_4:
  "1000 \<le> n \<Longrightarrow> n < 10000 \<Longrightarrow>
   dec n = [digit_char (n div 1000), digit_char (n div 100 mod 10), digit_char (n div 10 mod 10),
            digit_char (n mod 10)]"
  by (subst dec.simps) (simp add: dec_3 div_mult2_eq [symmetric])

lemma length_dec_ge: "10 ^ k \<le> n \<Longrightarrow> k < length (dec n)"
proof (induction k arbitrary: n)
  case 0
  then show ?case
    using dec_nonempty [of n] by (cases "dec n") auto
next
  case (Suc k)
  then have "10 ^ k \<le> n div 10"
    by (simp add: less_eq_div_iff_mult_less_eq mult.commute)
  moreover have "10 \<le> n"
  proof -
    define p :: nat where "p = 10 ^ k"
    have "1 \<le> p"
      by (simp add: p_def)
    moreover from Suc.prems have "10 * p \<le> n"
      by (simp add: p_def)
    ultimately show ?thesis
      by linarith
  qed
  ultimately show ?case
    using Suc.IH [of "n div 10"]
    by (subst dec.simps) (auto simp: not_less)
qed

lemma replicate_small:
  "replicate 3 c = [c, c, c]" "replicate 2 c = [c, c]" "replicate (Suc 0) c = [c]"
  by (simp_all add: numeral_3_eq_3 numeral_2_eq_2)

lemma fmt_d_two:
  assumes "0 \<le> x" "x \<le> 99"
  shows "fmt_d 2 x = two_digits x"
proof (cases "nat x < 10")
  case True
  with assms show ?thesis
    by (simp add: fmt_d_def two_digits_def dec_1 digit_char_0)
next
  case False
  with assms have "10 \<le> nat x" "nat x < 100"
    by simp_all
  with assms show ?thesis
    by (simp add: fmt_d_def two_digits_def dec_2)
qed

lemma fmt_d_year:
  assumes "0 \<le> y"
  shows "fmt_d 4 y = year_digits y"
proof -
  consider "nat y < 10" | "10 \<le> nat y" "nat y < 100" | "100 \<le> nat y" "nat y < 1000"
    | "1000 \<le> nat y" "nat y < 10000" | "10000 \<le> nat y"
    by linarith
  then show ?thesis
  proof cases
    case 1
    with assms show ?thesis
      by (simp add: fmt_d_def year_digits_def dec_1 digit_char_0 replicate_small)
  next
    case 2
    with assms show ?thesis
      by (simp add: fmt_d_def year_digits_def dec_2 digit_char_0 replicate_small)
  next
    case 3
    with assms show ?thesis
      by (simp add: fmt_d_def year_digits_def dec_3 digit_char_0 replicate_small)
  next
    case 4
    with assms show ?thesis
      by (simp add: fmt_d_def year_digits_def dec_4 digit_char_0)
  next
    case 5
    then have "4 < length (dec (nat y))"
      using length_dec_ge [of 4 "nat y"] by simp
    moreover from 5 have "\<not> y < 10000"
      by linarith
    ultimately show ?thesis
      using assms by (simp add: fmt_d_def year_digits_def)
  qed
qed


lemma fmt_d_no_punct:
  assumes "0 \<le> x"
  shows "CHR ''-'' \<notin> set (fmt_d w x)" "CHR '' '' \<notin> set (fmt_d w x)" "CHR '':'' \<notin> set (fmt_d w x)"
  using fmt_d_nonneg(1) [OF assms, of w] isdigit_not_punct
  by (auto simp: list_all_iff)


subsection \<open>The time of day of a valid timestamp\<close>

lemma Time_Convert_spec:
  assumes "0 \<le> t" "t < MICROS_PER_DAY"
  shows "\<exists>h m s us. Time_Convert t = (h, m, s, us) \<and> 0 \<le> h \<and> h \<le> 23 \<and> 0 \<le> m \<and> m \<le> 59 \<and>
           0 \<le> s \<and> s \<le> 59 \<and> us = t mod MICROS_PER_SEC \<and>
           Time_FromTime h m s = t - t mod MICROS_PER_SEC \<and>
           ((h = 0 \<and> m = 0 \<and> s = 0 \<and> us = 0) \<longleftrightarrow> t = 0)"
proof -
  define h where "h = t div 3600000000"
  define t1 where "t1 = t mod 3600000000"
  define m where "m = t1 div 60000000"
  define t2 where "t2 = t1 mod 60000000"
  define s where "s = t2 div 1000000"
  define t3 where "t3 = t2 mod 1000000"
  have e1: "t = 3600000000 * h + t1" and b1: "0 \<le> t1" "t1 < 3600000000"
    by (simp_all add: h_def t1_def)
  have e2: "t1 = 60000000 * m + t2" and b2: "0 \<le> t2" "t2 < 60000000"
    by (simp_all add: m_def t2_def)
  have e3: "t2 = 1000000 * s + t3" and b3: "0 \<le> t3" "t3 < 1000000"
    by (simp_all add: s_def t3_def)
  have h: "0 \<le> h" "h \<le> 23"
  proof -
    show "0 \<le> h"
      using assms(1) by (simp add: h_def pos_imp_zdiv_nonneg_iff)
    have "t < 86400000000"
      using assms(2) by (simp add: MICROS_PER_DAY_def)
    with e1 b1 show "h \<le> 23"
      by linarith
  qed
  have m: "0 \<le> m" "m \<le> 59"
  proof -
    show "0 \<le> m"
      using b1 by (simp add: m_def pos_imp_zdiv_nonneg_iff)
    from e2 b1 b2 show "m \<le> 59"
      by linarith
  qed
  have s: "0 \<le> s" "s \<le> 59"
  proof -
    show "0 \<le> s"
      using b2 by (simp add: s_def pos_imp_zdiv_nonneg_iff)
    from e3 b2 b3 show "s \<le> 59"
      by linarith
  qed
  have tc: "Time_Convert t = (h, m, s, t3)"
  proof -
    have "t sdiv 3600000000 = h"
      using assms by (simp add: sdiv_nonneg h_def)
    moreover have "t - h * 3600000000 = t1"
      using e1 by simp
    moreover have "t1 sdiv 60000000 = m"
      using b1 by (simp add: sdiv_nonneg m_def)
    moreover have "t1 - m * 60000000 = t2"
      using e2 by simp
    moreover have "t2 sdiv 1000000 = s"
      using b2 by (simp add: sdiv_nonneg s_def)
    moreover have "t2 - s * 1000000 = t3"
      using e3 by simp
    ultimately show ?thesis
      by (simp add: Time_Convert_def Let_def MICROS_PER_HOUR_def MICROS_PER_MINUTE_def
          MICROS_PER_SEC_def)
  qed
  have tt: "t = 1000000 * ((h * 60 + m) * 60 + s) + t3"
    using e1 e2 e3 by (simp add: algebra_simps)
  have us: "t mod 1000000 = t3"
    using b3 mod_unique_int [of t3 1000000 "(h * 60 + m) * 60 + s"]
    unfolding tt [symmetric] by simp
  have ft: "Time_FromTime h m s = t - t mod MICROS_PER_SEC"
    unfolding Time_FromTime_def MICROS_PER_SEC_def us using tt by (simp add: algebra_simps)
  have z: "(h = 0 \<and> m = 0 \<and> s = 0 \<and> t3 = 0) \<longleftrightarrow> t = 0"
  proof
    assume "h = 0 \<and> m = 0 \<and> s = 0 \<and> t3 = 0"
    with tt show "t = 0" by simp
  next
    assume "t = 0"
    then show "h = 0 \<and> m = 0 \<and> s = 0 \<and> t3 = 0"
      by (simp add: h_def t1_def m_def t2_def s_def t3_def)
  qed
  from tc h m s us ft z show ?thesis
    by (simp add: MICROS_PER_SEC_def)
qed


subsection \<open>Both directions from 1600-03-20 on\<close>

lemma g2j_ymd_spec:
  assumes gy: "1600 \<le> gy" "gy \<le> 294247" and gm: "1 \<le> gm" "gm \<le> 12"
    and gd: "1 \<le> gd" "gd \<le> Date_MonthDays gy gm"
    and anchor: "1600 < gy \<or> 3 < gm \<or> (gm = 3 \<and> 20 \<le> gd)"
  shows "\<exists>jy jm jd. gregorian_to_jalali_ymd gy gm gd = Inr (jy, jm, jd) \<and>
           979 \<le> jy \<and> jy < 1000000 \<and> 1 \<le> jm \<and> jm \<le> 12 \<and> 1 \<le> jd \<and> jd \<le> 31 \<and>
           jalali_to_gregorian_ymd jy jm jd = (gy, gm, gd)"
proof -
  from gy have gy': "gy \<le> 5000000" by simp
  obtain g where g: "gregorian_day_no gy gm gd = Inr g" and gb: "0 \<le> g" "g \<le> 366 * (gy - 1599)"
    and gback: "gregorian_of_day_no g = (gy, gm, gd)" and g79: "79 \<le> g"
    using gregorian_round [OF gy(1) gy' gm gd] anchor by blast
  have n: "0 \<le> g - 79" "g - 79 < 2000000000"
    using g79 gb gy by simp_all
  obtain jy jm jd where j: "jalali_of_day_no (g - 79) = Inr (jy, jm, jd)"
    and jb: "979 \<le> jy" "jy \<le> 979 + (g - 79) div 365" "1 \<le> jm" "jm \<le> 12" "1 \<le> jd" "jd \<le> 31"
    and jback: "jalali_day_no jy jm jd = g - 79"
    using jalali_of_day_no_spec [OF n] by blast
  have "(g - 79) div 365 \<le> 108000000 div 365"
    by (rule zdiv_mono1) (use gb gy in simp_all)
  with jb(2) have jy6: "jy < 1000000"
    by simp
  have fwd: "gregorian_to_jalali_ymd gy gm gd = Inr (jy, jm, jd)"
    by (simp add: gregorian_to_jalali_ymd_def g j)
  have "int32 (g - 79 + 79) = g"
    using gb gy by (simp add: int32_id)
  then have bwd: "jalali_to_gregorian_ymd jy jm jd = (gy, gm, gd)"
    by (simp add: jalali_to_gregorian_ymd_def jback gback)
  from fwd bwd jb jy6 show ?thesis
    by blast
qed

lemma valid_anchor_fields:
  assumes "valid_timestamp ts" "on_or_after_anchor ts"
  shows "1600 \<le> d_year (ts_date ts)" "d_year (ts_date ts) \<le> 294247"
    "1 \<le> d_month (ts_date ts)" "d_month (ts_date ts) \<le> 12"
    "1 \<le> d_day (ts_date ts)"
    "d_day (ts_date ts) \<le> Date_MonthDays (d_year (ts_date ts)) (d_month (ts_date ts))"
    "1600 < d_year (ts_date ts) \<or> 3 < d_month (ts_date ts)
       \<or> (d_month (ts_date ts) = 3 \<and> 20 \<le> d_day (ts_date ts))"
    "0 \<le> ts_micros ts" "ts_micros ts < MICROS_PER_DAY"
proof -
  from assms(1) have v: "Date_IsValid (d_year (ts_date ts)) (d_month (ts_date ts)) (d_day (ts_date ts))"
    and r: "in_timestamp_range ts"
    by (simp_all add: valid_timestamp_def)
  from assms(1) show "0 \<le> ts_micros ts" "ts_micros ts < MICROS_PER_DAY"
    by (simp_all add: valid_timestamp_def)
  from v show "1 \<le> d_month (ts_date ts)" "d_month (ts_date ts) \<le> 12" "1 \<le> d_day (ts_date ts)"
    "d_day (ts_date ts) \<le> Date_MonthDays (d_year (ts_date ts)) (d_month (ts_date ts))"
    by (simp_all add: Date_IsValid_def)
  from r have "stamp_le (d_year (ts_date ts), d_month (ts_date ts), d_day (ts_date ts), ts_micros ts)
      (294247, 1, 10, 14454775806)"
    by (simp add: in_timestamp_range_def Let_def)
  then show "d_year (ts_date ts) \<le> 294247"
    unfolding stamp_le_def prod.case by linarith
  from assms(2) have a: "stamp_le (1600, 3, 20, 0)
      (d_year (ts_date ts), d_month (ts_date ts), d_day (ts_date ts), ts_micros ts)"
    by (simp add: on_or_after_anchor_def)
  from a show "1600 \<le> d_year (ts_date ts)"
    unfolding stamp_le_def prod.case by linarith
  from a show "1600 < d_year (ts_date ts) \<or> 3 < d_month (ts_date ts)
       \<or> (d_month (ts_date ts) = 3 \<and> 20 \<le> d_day (ts_date ts))"
    unfolding stamp_le_def prod.case by linarith
qed

lemma gregorian_to_jalali_string:
  assumes "valid_timestamp ts" "on_or_after_anchor ts"
  shows "\<exists>jy jm jd hour minute second us.
     gregorian_to_jalali_ymd (d_year (ts_date ts)) (d_month (ts_date ts)) (d_day (ts_date ts))
       = Inr (jy, jm, jd) \<and>
     jalali_to_gregorian_ymd jy jm jd
       = (d_year (ts_date ts), d_month (ts_date ts), d_day (ts_date ts)) \<and>
     Time_Convert (ts_micros ts) = (hour, minute, second, us) \<and>
     Time_FromTime hour minute second = ts_micros ts - ts_micros ts mod MICROS_PER_SEC \<and>
     ((hour = 0 \<and> minute = 0 \<and> second = 0 \<and> us = 0) \<longleftrightarrow> ts_micros ts = 0) \<and>
     979 \<le> jy \<and> jy < 1000000 \<and> 1 \<le> jm \<and> jm \<le> 12 \<and> 1 \<le> jd \<and> jd \<le> 31 \<and>
     0 \<le> hour \<and> hour \<le> 23 \<and> 0 \<le> minute \<and> minute \<le> 59 \<and> 0 \<le> second \<and> second \<le> 59 \<and>
     GregorianToJalali ts =
       Inr (fmt_d 4 jy @ ''-'' @ fmt_d 2 jm @ ''-'' @ fmt_d 2 jd @
            (if hour = 0 \<and> minute = 0 \<and> second = 0 \<and> us = 0 then []
             else '' '' @ fmt_d 2 hour @ '':'' @ fmt_d 2 minute @ '':'' @ fmt_d 2 second))"
proof -
  note f = valid_anchor_fields [OF assms]
  obtain jy jm jd where
    j: "gregorian_to_jalali_ymd (d_year (ts_date ts)) (d_month (ts_date ts)) (d_day (ts_date ts))
          = Inr (jy, jm, jd)"
    and jb: "979 \<le> jy" "jy < 1000000" "1 \<le> jm" "jm \<le> 12" "1 \<le> jd" "jd \<le> 31"
    and jback: "jalali_to_gregorian_ymd jy jm jd
          = (d_year (ts_date ts), d_month (ts_date ts), d_day (ts_date ts))"
    using g2j_ymd_spec [OF f(1-7)] by blast
  obtain h m s us where tcs: "Time_Convert (ts_micros ts) = (h, m, s, us) \<and> 0 \<le> h \<and> h \<le> 23 \<and>
      0 \<le> m \<and> m \<le> 59 \<and> 0 \<le> s \<and> s \<le> 59 \<and> us = ts_micros ts mod MICROS_PER_SEC \<and>
      Time_FromTime h m s = ts_micros ts - ts_micros ts mod MICROS_PER_SEC \<and>
      ((h = 0 \<and> m = 0 \<and> s = 0 \<and> us = 0) \<longleftrightarrow> ts_micros ts = 0)"
    using Time_Convert_spec [OF f(8,9)] by (elim exE) (rule that)
  note tc = tcs [THEN conjunct1]
  note tb = tcs [THEN conjunct2, THEN conjunct1]
    tcs [THEN conjunct2, THEN conjunct2, THEN conjunct1]
    tcs [THEN conjunct2, THEN conjunct2, THEN conjunct2, THEN conjunct1]
    tcs [THEN conjunct2, THEN conjunct2, THEN conjunct2, THEN conjunct2, THEN conjunct1]
    tcs [THEN conjunct2, THEN conjunct2, THEN conjunct2, THEN conjunct2, THEN conjunct2,
         THEN conjunct1]
    tcs [THEN conjunct2, THEN conjunct2, THEN conjunct2, THEN conjunct2, THEN conjunct2,
         THEN conjunct2, THEN conjunct1]
  note ft = tcs [THEN conjunct2, THEN conjunct2, THEN conjunct2, THEN conjunct2, THEN conjunct2,
         THEN conjunct2, THEN conjunct2, THEN conjunct2, THEN conjunct1]
  note z = tcs [THEN conjunct2, THEN conjunct2, THEN conjunct2, THEN conjunct2, THEN conjunct2,
         THEN conjunct2, THEN conjunct2, THEN conjunct2, THEN conjunct2]
  have ly: "length (fmt_d 4 jy) \<le> 6"
    using length_fmt_d [of jy 6 4] jb by simp
  have l2: "length (fmt_d 2 x) \<le> 2" if "0 \<le> x" "x \<le> 99" for x
    using length_fmt_d [of x 2 2] that by simp
  have lj: "length (fmt_d 2 jm) \<le> 2" "length (fmt_d 2 jd) \<le> 2"
    using jb by (simp_all add: l2)
  have lt: "length (fmt_d 2 h) \<le> 2" "length (fmt_d 2 m) \<le> 2" "length (fmt_d 2 s) \<le> 2"
    using tb by (simp_all add: l2)
  have str: "GregorianToJalali ts =
       Inr (fmt_d 4 jy @ ''-'' @ fmt_d 2 jm @ ''-'' @ fmt_d 2 jd @
            (if h = 0 \<and> m = 0 \<and> s = 0 \<and> us = 0 then []
             else '' '' @ fmt_d 2 h @ '':'' @ fmt_d 2 m @ '':'' @ fmt_d 2 s))"
    using ly lj lt
    by (simp add: GregorianToJalali_def Timestamp_GetDate_def Timestamp_GetTime_def
        Date_Convert_def j tc snprintf_def)
  show ?thesis
    apply (rule exI [of _ jy], rule exI [of _ jm], rule exI [of _ jd])
    apply (rule exI [of _ h], rule exI [of _ m], rule exI [of _ s], rule exI [of _ us])
    using j jback tc ft z jb tb str by simp
qed

section \<open>Fixed inputs\<close>

text \<open>
  Claim C2. The Jalali New Year of 1400: \<^verbatim>\<open>JalaliToGregorian("1400-01-01", false)\<close> is the
  timestamp composed of the Gregorian date 2021-03-21 and the time of day 00:00:00.
\<close>

theorem new_year_1400:
  "JalaliToGregorian ''1400-01-01'' False
     = Inr \<lparr>ts_date = \<lparr>d_year = 2021, d_month = 3, d_day = 21\<rparr>, ts_micros = 0\<rparr>"
  by code_simp

section \<open>\<^verbatim>\<open>GregorianToJalali\<close> always returns\<close>

text \<open>
  Claim C8. \<^verbatim>\<open>GregorianToJalali\<close> is total on the valid timestamps: it returns a string
  and raises nothing, the two table reads of its loops stay inside their tables and
  both loops end. This includes the dates before 1600-03-20, whose Jalali day number
  is negative; the witness is such a date.
\<close>

theorem gregorian_to_jalali_total:
  assumes "valid_timestamp ts"
  shows "\<exists>s. GregorianToJalali ts = Inr s"
proof -
  from assms have m: "1 \<le> d_month (ts_date ts)" "d_month (ts_date ts) \<le> 12"
    by (simp_all add: valid_timestamp_def Date_IsValid_def)
  obtain r where "gregorian_to_jalali_ymd (d_year (ts_date ts)) (d_month (ts_date ts)) (d_day (ts_date ts)) = Inr r"
    using gregorian_to_jalali_ymd_total [OF m] by blast
  then show ?thesis
    by (simp add: GregorianToJalali_def Timestamp_GetDate_def Date_Convert_def Let_def
        split: prod.splits)
qed

theorem gregorian_to_jalali_total_witness:
  "valid_timestamp \<lparr>ts_date = \<lparr>d_year = 1600, d_month = 1, d_day = 1\<rparr>, ts_micros = 0\<rparr> \<and>
   (\<exists>s. GregorianToJalali
          \<lparr>ts_date = \<lparr>d_year = 1600, d_month = 1, d_day = 1\<rparr>, ts_micros = 0\<rparr> = Inr s)"
proof -
  have v: "valid_timestamp \<lparr>ts_date = \<lparr>d_year = 1600, d_month = 1, d_day = 1\<rparr>, ts_micros = 0\<rparr>"
    by code_simp
  from gregorian_to_jalali_total [OF v] v show ?thesis
    by blast
qed

section \<open>The end-of-day flag\<close>

text \<open>
  Claim C5. Whenever \<^verbatim>\<open>JalaliToGregorian\<close> returns a value with \<open>end_of_day\<close> set, the time
  of day of that value is 23:59:59 with no microseconds, whatever time the input held
  or lacked. Its date is the Gregorian date computed from the date fields alone. The
  flag does not touch that date: a value returned for the same input without the flag
  is the one the host composes from exactly this date and the time read from the
  input, so it has the same date whenever that time lies within a day.
\<close>

theorem end_of_day_override:
  assumes "JalaliToGregorian s True = Inr t"
  shows "Time_Convert (Timestamp_GetTime t) = (23, 59, 59, 0) \<and>
         (\<exists>jy jm jd. parse_date (Split s CHR '' '') = Inr (jy, jm, jd) \<and>
            Date_Convert (Timestamp_GetDate t) = jalali_to_gregorian_ymd jy jm jd) \<and>
         (\<forall>t'. JalaliToGregorian s False = Inr t' \<longrightarrow>
            (\<exists>hour minute second.
               parse_time (Split s CHR '' '') = Inr (hour, minute, second) \<and>
               Timestamp_FromDatetime (Timestamp_GetDate t) (Time_FromTime hour minute second)
                 = Inr t' \<and>
               (0 \<le> Time_FromTime hour minute second \<and>
                Time_FromTime hour minute second < MICROS_PER_DAY \<longrightarrow>
                  Timestamp_GetDate t' = Timestamp_GetDate t \<and>
                  Timestamp_GetTime t' = Time_FromTime hour minute second)))"
proof -
  from assms obtain jy jm jd where pd: "parse_date (Split s CHR '' '') = Inr (jy, jm, jd)"
    by (auto simp: JalaliToGregorian_def Let_def split: sum.splits)
  obtain gy gm gd where g: "jalali_to_gregorian_ymd jy jm jd = (gy, gm, gd)"
    by (cases "jalali_to_gregorian_ymd jy jm jd") auto
  from assms pd g obtain h0 m0 s0 where pt: "parse_time (Split s CHR '' '') = Inr (h0, m0, s0)"
    by (auto simp: JalaliToGregorian_def Let_def split: sum.splits)
  from assms pd g pt obtain d where d: "Date_FromDate gy gm gd = Inr d"
    by (auto simp: JalaliToGregorian_def Let_def split: sum.splits)
  from assms pd g pt d have fd: "Timestamp_FromDatetime d (Time_FromTime 23 59 59) = Inr t"
    by (simp add: JalaliToGregorian_def Let_def)
  have rng: "0 \<le> Time_FromTime 23 59 59" "Time_FromTime 23 59 59 < MICROS_PER_DAY"
    by (simp_all add: Time_FromTime_def MICROS_PER_SEC_def MICROS_PER_DAY_def)
  from fd have t: "t = \<lparr>ts_date = d, ts_micros = Time_FromTime 23 59 59\<rparr>"
    by (simp add: FromDatetime_in_day [OF rng] split: if_splits)
  have gd: "Timestamp_GetDate t = d"
    by (simp add: t Timestamp_GetDate_def)
  have c1: "Time_Convert (Timestamp_GetTime t) = (23, 59, 59, 0)"
    by (simp add: t Timestamp_GetTime_def Time_Convert_end_of_day)
  have c2: "Date_Convert (Timestamp_GetDate t) = jalali_to_gregorian_ymd jy jm jd"
    using Date_FromDate_Inr [OF d] by (simp add: gd g)
  have c3: "\<exists>hour minute second.
               parse_time (Split s CHR '' '') = Inr (hour, minute, second) \<and>
               Timestamp_FromDatetime (Timestamp_GetDate t) (Time_FromTime hour minute second)
                 = Inr t' \<and>
               (0 \<le> Time_FromTime hour minute second \<and>
                Time_FromTime hour minute second < MICROS_PER_DAY \<longrightarrow>
                  Timestamp_GetDate t' = Timestamp_GetDate t \<and>
                  Timestamp_GetTime t' = Time_FromTime hour minute second)"
    if u: "JalaliToGregorian s False = Inr t'" for t'
  proof -
    from u pd g pt d have fd': "Timestamp_FromDatetime d (Time_FromTime h0 m0 s0) = Inr t'"
      by (simp add: JalaliToGregorian_def Let_def)
    have same: "Timestamp_GetDate t' = d \<and> Timestamp_GetTime t' = Time_FromTime h0 m0 s0"
      if r: "0 \<le> Time_FromTime h0 m0 s0" "Time_FromTime h0 m0 s0 < MICROS_PER_DAY"
      using fd' unfolding FromDatetime_in_day [OF r]
      by (auto simp: Timestamp_GetDate_def Timestamp_GetTime_def split: if_splits)
    show ?thesis
      by (intro exI [of _ h0] exI [of _ m0] exI [of _ s0] conjI impI)
         (use pt fd' same in \<open>simp_all add: gd\<close>)
  qed
  from c1 c2 pd c3 show ?thesis
    by blast
qed

theorem end_of_day_override_witness:
  "JalaliToGregorian ''1400-01-01 10:20:30'' True
     = Inr \<lparr>ts_date = \<lparr>d_year = 2021, d_month = 3, d_day = 21\<rparr>, ts_micros = 86399000000\<rparr> \<and>
   Time_Convert (Timestamp_GetTime
     \<lparr>ts_date = \<lparr>d_year = 2021, d_month = 3, d_day = 21\<rparr>, ts_micros = 86399000000\<rparr>)
     = (23, 59, 59, 0) \<and>
   JalaliToGregorian ''1400-01-01 10:20:30'' False
     = Inr \<lparr>ts_date = \<lparr>d_year = 2021, d_month = 3, d_day = 21\<rparr>, ts_micros = 37230000000\<rparr> \<and>
   Timestamp_GetDate
     \<lparr>ts_date = \<lparr>d_year = 2021, d_month = 3, d_day = 21\<rparr>, ts_micros = 37230000000\<rparr>
     = Timestamp_GetDate
         \<lparr>ts_date = \<lparr>d_year = 2021, d_month = 3, d_day = 21\<rparr>, ts_micros = 86399000000\<rparr>"
proof -
  let ?t = "\<lparr>ts_date = \<lparr>d_year = 2021, d_month = 3, d_day = 21\<rparr>, ts_micros = 86399000000\<rparr>"
  let ?u = "\<lparr>ts_date = \<lparr>d_year = 2021, d_month = 3, d_day = 21\<rparr>, ts_micros = 37230000000\<rparr>"
  have e: "JalaliToGregorian ''1400-01-01 10:20:30'' True = Inr ?t"
    by code_simp
  have f: "JalaliToGregorian ''1400-01-01 10:20:30'' False = Inr ?u"
    by code_simp
  have p: "parse_time (Split ''1400-01-01 10:20:30'' CHR '' '') = Inr (10, 20, 30)"
    by code_simp
  have r: "0 \<le> Time_FromTime 10 20 30 \<and> Time_FromTime 10 20 30 < MICROS_PER_DAY"
    by (simp add: Time_FromTime_def MICROS_PER_SEC_def MICROS_PER_DAY_def)
  note th = end_of_day_override [OF e]
  have c1: "Time_Convert (Timestamp_GetTime ?t) = (23, 59, 59, 0)"
    by (rule th [THEN conjunct1])
  from th [THEN conjunct2, THEN conjunct2, rule_format, OF f] obtain hour minute second
    where q: "parse_time (Split ''1400-01-01 10:20:30'' CHR '' '') = Inr (hour, minute, second)"
      and i: "0 \<le> Time_FromTime hour minute second \<and>
                Time_FromTime hour minute second < MICROS_PER_DAY \<longrightarrow>
                  Timestamp_GetDate ?u = Timestamp_GetDate ?t \<and>
                  Timestamp_GetTime ?u = Time_FromTime hour minute second"
    by (elim exE conjE) (rule that)
  from q p have "hour = 10" "minute = 20" "second = 30"
    by simp_all
  with i r have c2: "Timestamp_GetDate ?u = Timestamp_GetDate ?t"
    by simp
  show ?thesis
    by (intro conjI) (rule e, rule c1, rule f, rule c2)
qed

section \<open>The time part\<close>

text \<open>
  Claim C10. When the time part (the second part of the input split at spaces) splits
  at colons into four or more fields, the hour and the minute are read from the first
  two fields and the seconds stay 0; the other fields are not read at all. The result
  of the whole function is the one composed from that hour, that minute and 0 seconds.
\<close>

theorem extra_time_fields_ignored:
  assumes "at (Split s CHR '' '') 1 = Inr time_part"
      and "length (Split time_part CHR '':'') \<ge> 4"
  shows "parse_time (Split s CHR '' '') =
           (case stoi (Split time_part CHR '':'' ! 0) of Inl e \<Rightarrow> Inl e | Inr hour \<Rightarrow>
           (case stoi (Split time_part CHR '':'' ! 1) of Inl e \<Rightarrow> Inl e | Inr minute \<Rightarrow>
            Inr (hour, minute, 0))) \<and>
         JalaliToGregorian s False =
           (case parse_date (Split s CHR '' '') of Inl e \<Rightarrow> Inl e | Inr (jy, jm, jd) \<Rightarrow>
           (case stoi (Split time_part CHR '':'' ! 0) of Inl e \<Rightarrow> Inl e | Inr hour \<Rightarrow>
           (case stoi (Split time_part CHR '':'' ! 1) of Inl e \<Rightarrow> Inl e | Inr minute \<Rightarrow>
           (case jalali_to_gregorian_ymd jy jm jd of (gy, gm, gd) \<Rightarrow>
           (case Date_FromDate gy gm gd of Inl e \<Rightarrow> Inl e | Inr d \<Rightarrow>
            Timestamp_FromDatetime d (Time_FromTime hour minute 0))))))"
proof -
  have pt: "parse_time (Split s CHR '' '') =
           (case stoi (Split time_part CHR '':'' ! 0) of Inl e \<Rightarrow> Inl e | Inr hour \<Rightarrow>
           (case stoi (Split time_part CHR '':'' ! 1) of Inl e \<Rightarrow> Inl e | Inr minute \<Rightarrow>
            Inr (hour, minute, 0)))"
    using assms(2) by (simp add: parse_time_present [OF assms(1)] Let_def split: sum.splits)
  show ?thesis
    by (simp add: pt JalaliToGregorian_def Let_def split: sum.splits prod.splits)
qed

theorem extra_time_fields_ignored_witness:
  "at (Split ''1400-01-01 10:20:30:40'' CHR '' '') 1 = Inr ''10:20:30:40'' \<and>
   length (Split ''10:20:30:40'' CHR '':'') \<ge> 4 \<and>
   parse_time (Split ''1400-01-01 10:20:30:40'' CHR '' '') = Inr (10, 20, 0) \<and>
   JalaliToGregorian ''1400-01-01 10:20:30:40'' False
     = Inr \<lparr>ts_date = \<lparr>d_year = 2021, d_month = 3, d_day = 21\<rparr>, ts_micros = 37200000000\<rparr>"
proof -
  have h1: "at (Split ''1400-01-01 10:20:30:40'' CHR '' '') 1 = Inr ''10:20:30:40''"
    by code_simp
  have h2: "length (Split ''10:20:30:40'' CHR '':'') \<ge> 4"
    by code_simp
  have r1: "(case stoi (Split ''10:20:30:40'' CHR '':'' ! 0) of Inl e \<Rightarrow> Inl e | Inr hour \<Rightarrow>
            (case stoi (Split ''10:20:30:40'' CHR '':'' ! 1) of Inl e \<Rightarrow> Inl e | Inr minute \<Rightarrow>
             Inr (hour, minute, 0 :: int))) = (Inr (10, 20, 0) :: error + int \<times> int \<times> int)"
    by code_simp
  have r2: "(case parse_date (Split ''1400-01-01 10:20:30:40'' CHR '' '') of Inl e \<Rightarrow> Inl e
             | Inr (jy, jm, jd) \<Rightarrow>
            (case stoi (Split ''10:20:30:40'' CHR '':'' ! 0) of Inl e \<Rightarrow> Inl e | Inr hour \<Rightarrow>
            (case stoi (Split ''10:20:30:40'' CHR '':'' ! 1) of Inl e \<Rightarrow> Inl e | Inr minute \<Rightarrow>
            (case jalali_to_gregorian_ymd jy jm jd of (gy, gm, gd) \<Rightarrow>
            (case Date_FromDate gy gm gd of Inl e \<Rightarrow> Inl e | Inr d \<Rightarrow>
             Timestamp_FromDatetime d (Time_FromTime hour minute 0))))))
          = Inr \<lparr>ts_date = \<lparr>d_year = 2021, d_month = 3, d_day = 21\<rparr>, ts_micros = 37200000000\<rparr>"
    by code_simp
  from extra_time_fields_ignored [OF h1 h2] h1 h2 show ?thesis
    by (simp only: r1 r2 simp_thms)
qed

text \<open>
  Claim C7, as the code has it. The time read from the input is decided by the number
  of fields of the time part alone: two fields give hour and minute with 0 seconds,
  exactly three give hour, minute and seconds, four or more give hour and minute with
  0 seconds again, and a time part with fewer than two fields is not refused but
  treated like an absent one, 00:00:00. Every value the function returns without the
  flag is composed from the time read this way.
\<close>

theorem time_part_fields:
  "parse_time (Split s CHR '' '') =
     (case Split s CHR '' '' of
        _ # time_part # _ \<Rightarrow>
          (case Split time_part CHR '':'' of
             [f0, f1] \<Rightarrow>
               (case stoi f0 of Inl e \<Rightarrow> Inl e | Inr hour \<Rightarrow>
                  (case stoi f1 of Inl e \<Rightarrow> Inl e | Inr minute \<Rightarrow> Inr (hour, minute, 0)))
           | [f0, f1, f2] \<Rightarrow>
               (case stoi f0 of Inl e \<Rightarrow> Inl e | Inr hour \<Rightarrow>
                  (case stoi f1 of Inl e \<Rightarrow> Inl e | Inr minute \<Rightarrow>
                     (case stoi f2 of Inl e \<Rightarrow> Inl e | Inr second \<Rightarrow>
                        Inr (hour, minute, second))))
           | f0 # f1 # _ # _ # _ \<Rightarrow>
               (case stoi f0 of Inl e \<Rightarrow> Inl e | Inr hour \<Rightarrow>
                  (case stoi f1 of Inl e \<Rightarrow> Inl e | Inr minute \<Rightarrow> Inr (hour, minute, 0)))
           | _ \<Rightarrow> Inr (0, 0, 0))
      | _ \<Rightarrow> Inr (0, 0, 0)) \<and>
   (\<forall>t. JalaliToGregorian s False = Inr t \<longrightarrow>
      (\<exists>d hour minute second.
         parse_time (Split s CHR '' '') = Inr (hour, minute, second) \<and>
         Timestamp_FromDatetime d (Time_FromTime hour minute second) = Inr t))"
proof (intro conjI allI impI)
  show "parse_time (Split s CHR '' '') =
     (case Split s CHR '' '' of
        _ # time_part # _ \<Rightarrow>
          (case Split time_part CHR '':'' of
             [f0, f1] \<Rightarrow>
               (case stoi f0 of Inl e \<Rightarrow> Inl e | Inr hour \<Rightarrow>
                  (case stoi f1 of Inl e \<Rightarrow> Inl e | Inr minute \<Rightarrow> Inr (hour, minute, 0)))
           | [f0, f1, f2] \<Rightarrow>
               (case stoi f0 of Inl e \<Rightarrow> Inl e | Inr hour \<Rightarrow>
                  (case stoi f1 of Inl e \<Rightarrow> Inl e | Inr minute \<Rightarrow>
                     (case stoi f2 of Inl e \<Rightarrow> Inl e | Inr second \<Rightarrow>
                        Inr (hour, minute, second))))
           | f0 # f1 # _ # _ # _ \<Rightarrow>
               (case stoi f0 of Inl e \<Rightarrow> Inl e | Inr hour \<Rightarrow>
                  (case stoi f1 of Inl e \<Rightarrow> Inl e | Inr minute \<Rightarrow> Inr (hour, minute, 0)))
           | _ \<Rightarrow> Inr (0, 0, 0))
      | _ \<Rightarrow> Inr (0, 0, 0))"
  proof (cases "Split s CHR '' ''")
    case Nil
    then show ?thesis
      by (simp add: parse_time_absent)
  next
    case (Cons dp rest)
    show ?thesis
    proof (cases rest)
      case Nil
      with Cons show ?thesis
        by (simp add: parse_time_absent)
    next
      case (Cons tp rest')
      have rd: "at (dp # tp # rest') 1 = Inr tp"
        by (simp add: at_def)
      show ?thesis
        unfolding \<open>Split s CHR '' '' = dp # rest\<close> Cons parse_time_present [OF rd]
        by (simp add: Let_def split: list.splits sum.splits)
    qed
  qed
next
  fix t
  assume "JalaliToGregorian s False = Inr t"
  then show "\<exists>d hour minute second.
         parse_time (Split s CHR '' '') = Inr (hour, minute, second) \<and>
         Timestamp_FromDatetime d (Time_FromTime hour minute second) = Inr t"
    by (auto simp: JalaliToGregorian_def Let_def split: sum.splits prod.splits)
qed

theorem time_part_fields_witness:
  "parse_time (Split ''1400-01-01 10:20:30'' CHR '' '') = Inr (10, 20, 30) \<and>
   (\<exists>d hour minute second.
      parse_time (Split ''1400-01-01 10:20:30'' CHR '' '') = Inr (hour, minute, second) \<and>
      Timestamp_FromDatetime d (Time_FromTime hour minute second)
        = Inr \<lparr>ts_date = \<lparr>d_year = 2021, d_month = 3, d_day = 21\<rparr>, ts_micros = 37230000000\<rparr>)"
proof -
  have e: "JalaliToGregorian ''1400-01-01 10:20:30'' False
     = Inr \<lparr>ts_date = \<lparr>d_year = 2021, d_month = 3, d_day = 21\<rparr>, ts_micros = 37230000000\<rparr>"
    by code_simp
  have p: "parse_time (Split ''1400-01-01 10:20:30'' CHR '' '') = Inr (10, 20, 30)"
    by code_simp
  from time_part_fields [of "''1400-01-01 10:20:30''"] e p show ?thesis
    by blast
qed

text \<open>
  The claim as the spec words it fails twice on the input below: a third field is
  present and is not the seconds, and a time part of one field is accepted.
\<close>

theorem third_field_not_seconds:
  "at (Split ''1400-01-01 10:20:30:40'' CHR '' '') 1 = Inr ''10:20:30:40'' \<and>
   at (Split ''10:20:30:40'' CHR '':'') 2 = Inr ''30'' \<and>
   stoi ''30'' = Inr 30 \<and>
   JalaliToGregorian ''1400-01-01 10:20:30:40'' False
     = Inr \<lparr>ts_date = \<lparr>d_year = 2021, d_month = 3, d_day = 21\<rparr>,
            ts_micros = Time_FromTime 10 20 0\<rparr> \<and>
   at (Split ''1400-01-01 10'' CHR '' '') 1 = Inr ''10'' \<and>
   length (Split ''10'' CHR '':'') = 1 \<and>
   JalaliToGregorian ''1400-01-01 10'' False
     = Inr \<lparr>ts_date = \<lparr>d_year = 2021, d_month = 3, d_day = 21\<rparr>,
            ts_micros = Time_FromTime 0 0 0\<rparr>"
  by code_simp

section \<open>The empty input\<close>

text \<open>
  Claim C9. The claim says the read of \<^verbatim>\<open>datetime_parts[0]\<close> at line 28 is within bounds for
  every input, the empty string included. On the empty string the split has no part
  and the read is out of bounds, with either value of the flag.
\<close>

theorem empty_input_reads_out_of_bounds:
  "Split [] CHR '' '' = [] \<and>
   at (Split [] CHR '' '') 0 = (Inl IndexError :: error + string) \<and>
   JalaliToGregorian [] False = Inl IndexError \<and>
   JalaliToGregorian [] True = Inl IndexError"
  by code_simp

text \<open>
  Claim C4. The claim says the function fails with \<open>FormatError\<close> exactly when the text
  before the first space does not split at \<^verbatim>\<open>-\<close> into three fields. For the empty input
  that text has no field at all, yet the failure is the read out of bounds above and
  not \<open>FormatError\<close>; the input \<^verbatim>\<open>1400-01\<close> of the claim does fail with \<open>FormatError\<close>.
\<close>

theorem empty_input_no_format_error:
  "length (Split (takeWhile (\<lambda>c. c \<noteq> CHR '' '') []) CHR ''-'') \<noteq> 3 \<and>
   JalaliToGregorian [] False \<noteq> Inl FormatError \<and>
   JalaliToGregorian ''1400-01'' False = Inl FormatError"
  by code_simp

text \<open>
  For every other input both claims hold: the read is within bounds, and the failure
  is \<open>FormatError\<close> exactly when the date part has not three fields.
\<close>

lemma Split_nonempty:
  "s \<noteq> [] \<Longrightarrow> Split s c = takeWhile (\<lambda>x. x \<noteq> c) s # Split (drop 1 (dropWhile (\<lambda>x. x \<noteq> c) s)) c"
  by (subst Split.simps) simp

lemma first_part_in_bounds:
  "s \<noteq> [] \<Longrightarrow> at (Split s c) 0 = Inr (takeWhile (\<lambda>x. x \<noteq> c) s)"
  by (simp add: Split_nonempty at_def)

lemma stoi_not_FormatError: "stoi x \<noteq> Inl FormatError"
  by (simp add: stoi_def Let_def)

lemma at_not_FormatError: "at xs i \<noteq> Inl FormatError"
  by (simp add: at_def)

lemma parse_time_not_FormatError: "parse_time ps \<noteq> Inl FormatError"
  by (auto simp: parse_time_def Let_def stoi_not_FormatError at_not_FormatError split: sum.splits)

lemma parse_date_FormatError:
  "parse_date ps = Inl FormatError \<longleftrightarrow> (\<exists>dp. at ps 0 = Inr dp \<and> length (Split dp CHR ''-'') \<noteq> 3)"
  by (auto simp: parse_date_def Let_def stoi_not_FormatError at_not_FormatError split: sum.splits)

lemma format_error_iff:
  assumes "s \<noteq> []"
  shows "JalaliToGregorian s b = Inl FormatError \<longleftrightarrow>
         length (Split (takeWhile (\<lambda>c. c \<noteq> CHR '' '') s) CHR ''-'') \<noteq> 3"
proof -
  have "JalaliToGregorian s b = Inl FormatError \<longleftrightarrow> parse_date (Split s CHR '' '') = Inl FormatError"
    using parse_time_not_FormatError [of "Split s CHR '' ''"]
    by (auto simp: JalaliToGregorian_def Let_def Date_FromDate_def Timestamp_FromDatetime_def
        split: sum.splits prod.splits if_splits)
  then show ?thesis
    by (simp add: parse_date_FormatError first_part_in_bounds [OF assms])
qed

section \<open>Dates before 1600-03-20\<close>

text \<open>
  Claim C3. The claim says \<^verbatim>\<open>GregorianToJalali\<close> turns the leap day 1600-02-29 into a valid
  Jalali date. The Jalali day number of that date is \<open>-20\<close>; division and remainder
  truncate towards zero, so the year stays 979, the month walk does not move, and the
  day that is printed is \<open>-19\<close>.
\<close>

theorem leap_day_1600:
  "valid_timestamp \<lparr>ts_date = \<lparr>d_year = 1600, d_month = 2, d_day = 29\<rparr>, ts_micros = 0\<rparr> \<and>
   gregorian_to_jalali_ymd 1600 2 29 = Inr (979, 1, - 19) \<and>
   GregorianToJalali \<lparr>ts_date = \<lparr>d_year = 1600, d_month = 2, d_day = 29\<rparr>, ts_micros = 0\<rparr>
     = Inr ''0979-01--19''"
  by code_simp

text \<open>
  Claim C1. The claim says that converting a valid timestamp to Jalali and back gives
  the timestamp again. For 1600-02-29 at midnight the string produced has four fields
  between its \<^verbatim>\<open>-\<close> signs and the way back fails with \<open>FormatError\<close>.
\<close>

theorem round_trip_fails_before_anchor:
  "valid_timestamp \<lparr>ts_date = \<lparr>d_year = 1600, d_month = 2, d_day = 29\<rparr>, ts_micros = 0\<rparr> \<and>
   (case GregorianToJalali \<lparr>ts_date = \<lparr>d_year = 1600, d_month = 2, d_day = 29\<rparr>, ts_micros = 0\<rparr>
    of Inl e \<Rightarrow> Inl e | Inr s \<Rightarrow> JalaliToGregorian s False) = Inl FormatError"
  by code_simp

text \<open>
  From 1600-03-20 on the round trip does hold for every valid timestamp: the string
  produced is read back to the same date, with the time of day cut to whole seconds.
\<close>

lemma round_trip_from_anchor:
  assumes "valid_timestamp ts" "on_or_after_anchor ts"
  shows "\<exists>s. GregorianToJalali ts = Inr s \<and>
           JalaliToGregorian s False
             = Inr (ts\<lparr>ts_micros := ts_micros ts - ts_micros ts mod MICROS_PER_SEC\<rparr>)"
proof -
  note f = valid_anchor_fields [OF assms]
  obtain jy jm jd h m s us where
    j: "gregorian_to_jalali_ymd (d_year (ts_date ts)) (d_month (ts_date ts)) (d_day (ts_date ts))
          = Inr (jy, jm, jd)"
    and jback: "jalali_to_gregorian_ymd jy jm jd
          = (d_year (ts_date ts), d_month (ts_date ts), d_day (ts_date ts))"
    and tc: "Time_Convert (ts_micros ts) = (h, m, s, us)"
    and ft: "Time_FromTime h m s = ts_micros ts - ts_micros ts mod MICROS_PER_SEC"
    and z: "(h = 0 \<and> m = 0 \<and> s = 0 \<and> us = 0) \<longleftrightarrow> ts_micros ts = 0"
    and jb: "979 \<le> jy" "jy < 1000000" "1 \<le> jm" "jm \<le> 12" "1 \<le> jd" "jd \<le> 31"
    and tb: "0 \<le> h" "h \<le> 23" "0 \<le> m" "m \<le> 59" "0 \<le> s" "s \<le> 59"
    and str: "GregorianToJalali ts =
       Inr (fmt_d 4 jy @ ''-'' @ fmt_d 2 jm @ ''-'' @ fmt_d 2 jd @
            (if h = 0 \<and> m = 0 \<and> s = 0 \<and> us = 0 then []
             else '' '' @ fmt_d 2 h @ '':'' @ fmt_d 2 m @ '':'' @ fmt_d 2 s))"
    using gregorian_to_jalali_string [OF assms] by (elim exE conjE) (rule that)
  define Y where "Y = fmt_d 4 jy"
  define M where "M = fmt_d 2 jm"
  define D where "D = fmt_d 2 jd"
  define dp where "dp = Y @ CHR ''-'' # M @ CHR ''-'' # D"
  have nn: "0 \<le> jy" "0 \<le> jm" "0 \<le> jd"
    using jb by simp_all
  have np: "CHR ''-'' \<notin> set Y" "CHR ''-'' \<notin> set M" "CHR ''-'' \<notin> set D"
    "CHR '' '' \<notin> set Y" "CHR '' '' \<notin> set M" "CHR '' '' \<notin> set D" "D \<noteq> []"
    unfolding Y_def M_def D_def using nn by (simp_all add: fmt_d_no_punct fmt_d_nonneg)
  have si: "stoi Y = Inr jy" "stoi M = Inr jm" "stoi D = Inr jd"
    unfolding Y_def M_def D_def using jb by (simp_all add: stoi_fmt_d)
  have sp: "Split dp CHR ''-'' = [Y, M, D]"
    unfolding dp_def using np by (simp add: Split_append Split_no_delim)
  have dpn: "dp \<noteq> []" "CHR '' '' \<notin> set dp"
    using np by (simp_all add: dp_def)
  have pd: "parse_date (dp # rest) = Inr (jy, jm, jd)" for rest
    by (simp add: parse_date_def at_def sp si)
  have vd: "Date_FromDate (d_year (ts_date ts)) (d_month (ts_date ts)) (d_day (ts_date ts))
              = Inr (ts_date ts)"
    using assms(1) by (simp add: Date_FromDate_def valid_timestamp_def)
  define t' where "t' = ts_micros ts - ts_micros ts mod MICROS_PER_SEC"
  have t'b: "0 \<le> t'" "t' \<le> ts_micros ts"
    using f(8) by (simp_all add: t'_def MICROS_PER_SEC_def zmod_le_nonneg_dividend)
  have rng: "in_timestamp_range \<lparr>ts_date = ts_date ts, ts_micros = t'\<rparr>"
  proof -
    from assms(1) have "stamp_le (d_year (ts_date ts), d_month (ts_date ts), d_day (ts_date ts),
        ts_micros ts) (294247, 1, 10, 14454775806)"
      by (simp add: valid_timestamp_def in_timestamp_range_def Let_def)
    with t'b(2) have "stamp_le (d_year (ts_date ts), d_month (ts_date ts), d_day (ts_date ts), t')
        (294247, 1, 10, 14454775806)"
      unfolding stamp_le_def prod.case by linarith
    moreover have "stamp_le (- 290308, 12, 22, 0)
        (d_year (ts_date ts), d_month (ts_date ts), d_day (ts_date ts), t')"
      unfolding stamp_le_def prod.case using f(1) by linarith
    ultimately show ?thesis
      by (simp add: in_timestamp_range_def Let_def)
  qed
  have fd: "Timestamp_FromDatetime (ts_date ts) t' = Inr (ts\<lparr>ts_micros := t'\<rparr>)"
    using FromDatetime_in_day [of t' "ts_date ts"] t'b f(9) rng by simp
  show ?thesis
  proof (cases "h = 0 \<and> m = 0 \<and> s = 0 \<and> us = 0")
    case True
    with z have "ts_micros ts = 0" by simp
    then have t0: "t' = 0" by (simp add: t'_def)
    from True str have s: "GregorianToJalali ts = Inr dp"
      by (simp add: dp_def Y_def M_def D_def)
    have "Split dp CHR '' '' = [dp]"
      using dpn by (simp add: Split_no_delim)
    then have "JalaliToGregorian dp False = Inr (ts\<lparr>ts_micros := t'\<rparr>)"
      using fd by (simp add: JalaliToGregorian_def pd jback parse_time_absent vd
          Time_FromTime_def t0)
    with s show ?thesis
      by (simp add: t'_def)
  next
    case False
    define H where "H = fmt_d 2 h"
    define Mi where "Mi = fmt_d 2 m"
    define S where "S = fmt_d 2 s"
    define tp where "tp = H @ CHR '':'' # Mi @ CHR '':'' # S"
    have tnp: "CHR '':'' \<notin> set H" "CHR '':'' \<notin> set Mi" "CHR '':'' \<notin> set S"
      "CHR '' '' \<notin> set H" "CHR '' '' \<notin> set Mi" "CHR '' '' \<notin> set S" "S \<noteq> []"
      unfolding H_def Mi_def S_def using tb by (simp_all add: fmt_d_no_punct fmt_d_nonneg)
    have tsi: "stoi H = Inr h" "stoi Mi = Inr m" "stoi S = Inr s"
      unfolding H_def Mi_def S_def using tb by (simp_all add: stoi_fmt_d)
    have tsp: "Split tp CHR '':'' = [H, Mi, S]"
      unfolding tp_def using tnp by (simp add: Split_append Split_no_delim)
    have tpn: "tp \<noteq> []" "CHR '' '' \<notin> set tp"
      using tnp by (simp_all add: tp_def)
    from False str have s: "GregorianToJalali ts = Inr (dp @ CHR '' '' # tp)"
      by (simp add: dp_def tp_def Y_def M_def D_def H_def Mi_def S_def)
    have ss: "Split (dp @ CHR '' '' # tp) CHR '' '' = [dp, tp]"
      using dpn tpn by (simp add: Split_append Split_no_delim)
    have pt: "parse_time [dp, tp] = Inr (h, m, s)"
      by (simp add: parse_time_def at_def tsp tsi)
    have "JalaliToGregorian (dp @ CHR '' '' # tp) False = Inr (ts\<lparr>ts_micros := t'\<rparr>)"
      using fd by (simp add: JalaliToGregorian_def ss pd jback pt vd ft t'_def)
    with s show ?thesis
      by (simp add: t'_def)
  qed
qed

lemma round_trip_example:
  "GregorianToJalali
     \<lparr>ts_date = \<lparr>d_year = 2021, d_month = 3, d_day = 21\<rparr>, ts_micros = 45296789000\<rparr>
     = Inr ''1400-01-01 12:34:56'' \<and>
   JalaliToGregorian ''1400-01-01 12:34:56'' False
     = Inr \<lparr>ts_date = \<lparr>d_year = 2021, d_month = 3, d_day = 21\<rparr>, ts_micros = 45296000000\<rparr>"
  by code_simp

section \<open>The format of the output\<close>

text \<open>
  Claim C6, as the code has it. For every valid timestamp from 1600-03-20 on, the
  string returned is the Jalali year in decimal, padded with zeros to four digits (and
  with all its digits when it exceeds 9999), then \<^verbatim>\<open>-\<close>, the month in two digits, \<^verbatim>\<open>-\<close>
  and the day in two digits. Nothing follows when hour, minute, second and
  microseconds are all zero; otherwise a space and hour, minute and second follow, in
  two digits each and separated by colons, with the microseconds dropped. The witness
  is a timestamp whose only non-zero component is one microsecond.
\<close>

theorem jalali_output_format:
  assumes "valid_timestamp ts" "on_or_after_anchor ts"
  shows "\<exists>jy jm jd hour minute second us.
     gregorian_to_jalali_ymd (d_year (ts_date ts)) (d_month (ts_date ts)) (d_day (ts_date ts))
       = Inr (jy, jm, jd) \<and>
     Time_Convert (Timestamp_GetTime ts) = (hour, minute, second, us) \<and>
     979 \<le> jy \<and> 1 \<le> jm \<and> jm \<le> 12 \<and> 1 \<le> jd \<and> jd \<le> 31 \<and>
     0 \<le> hour \<and> hour \<le> 23 \<and> 0 \<le> minute \<and> minute \<le> 59 \<and> 0 \<le> second \<and> second \<le> 59 \<and>
     GregorianToJalali ts =
       Inr (year_digits jy @ ''-'' @ two_digits jm @ ''-'' @ two_digits jd @
            (if hour = 0 \<and> minute = 0 \<and> second = 0 \<and> us = 0 then []
             else '' '' @ two_digits hour @ '':'' @ two_digits minute @ '':'' @ two_digits second))"
proof -
  obtain jy jm jd h m s us where
    j: "gregorian_to_jalali_ymd (d_year (ts_date ts)) (d_month (ts_date ts)) (d_day (ts_date ts))
          = Inr (jy, jm, jd)"
    and tc: "Time_Convert (ts_micros ts) = (h, m, s, us)"
    and jb: "979 \<le> jy" "1 \<le> jm" "jm \<le> 12" "1 \<le> jd" "jd \<le> 31"
    and tb: "0 \<le> h" "h \<le> 23" "0 \<le> m" "m \<le> 59" "0 \<le> s" "s \<le> 59"
    and str: "GregorianToJalali ts =
       Inr (fmt_d 4 jy @ ''-'' @ fmt_d 2 jm @ ''-'' @ fmt_d 2 jd @
            (if h = 0 \<and> m = 0 \<and> s = 0 \<and> us = 0 then []
             else '' '' @ fmt_d 2 h @ '':'' @ fmt_d 2 m @ '':'' @ fmt_d 2 s))"
    using gregorian_to_jalali_string [OF assms] by (elim exE conjE) (rule that)
  have d: "fmt_d 4 jy = year_digits jy" "fmt_d 2 jm = two_digits jm" "fmt_d 2 jd = two_digits jd"
    "fmt_d 2 h = two_digits h" "fmt_d 2 m = two_digits m" "fmt_d 2 s = two_digits s"
    using jb tb by (simp_all add: fmt_d_year fmt_d_two)
  show ?thesis
    apply (rule exI [of _ jy], rule exI [of _ jm], rule exI [of _ jd])
    apply (rule exI [of _ h], rule exI [of _ m], rule exI [of _ s], rule exI [of _ us])
    using j tc jb tb str unfolding d by (simp add: Timestamp_GetTime_def)
qed


theorem jalali_output_format_witness:
  "valid_timestamp \<lparr>ts_date = \<lparr>d_year = 2021, d_month = 3, d_day = 21\<rparr>, ts_micros = 1\<rparr> \<and>
   on_or_after_anchor \<lparr>ts_date = \<lparr>d_year = 2021, d_month = 3, d_day = 21\<rparr>, ts_micros = 1\<rparr> \<and>
   Time_Convert 1 = (0, 0, 0, 1) \<and>
   (\<exists>jy jm jd hour minute second.
      GregorianToJalali \<lparr>ts_date = \<lparr>d_year = 2021, d_month = 3, d_day = 21\<rparr>, ts_micros = 1\<rparr>
        = Inr (year_digits jy @ ''-'' @ two_digits jm @ ''-'' @ two_digits jd @ '' ''
                 @ two_digits hour @ '':'' @ two_digits minute @ '':'' @ two_digits second))"
proof -
  let ?ts = "\<lparr>ts_date = \<lparr>d_year = 2021, d_month = 3, d_day = 21\<rparr>, ts_micros = 1\<rparr>"
  have v: "valid_timestamp ?ts"
    by code_simp
  have a: "on_or_after_anchor ?ts"
    by code_simp
  have t: "Time_Convert 1 = (0, 0, 0, 1)"
    by code_simp
  from jalali_output_format [OF v a] obtain jy jm jd hour minute second us
    where tc: "Time_Convert (Timestamp_GetTime ?ts) = (hour, minute, second, us)"
      and str: "GregorianToJalali ?ts =
       Inr (year_digits jy @ ''-'' @ two_digits jm @ ''-'' @ two_digits jd @
            (if hour = 0 \<and> minute = 0 \<and> second = 0 \<and> us = 0 then []
             else '' '' @ two_digits hour @ '':'' @ two_digits minute @ '':'' @ two_digits second))"
    by (elim exE conjE) (rule that)
  from tc t have "us = 1"
    by (simp add: Timestamp_GetTime_def)
  with str have g: "GregorianToJalali ?ts =
       Inr (year_digits jy @ ''-'' @ two_digits jm @ ''-'' @ two_digits jd @ '' ''
              @ two_digits hour @ '':'' @ two_digits minute @ '':'' @ two_digits second)"
    by simp
  show ?thesis
    by (intro conjI exI) (rule v, rule a, rule t, rule g)
qed


text \<open>
  The claim as the spec words it promises a year of four digits for every valid
  timestamp. The Jalali year 10000 begins on 10621-03-20, well inside the range of
  valid timestamps, and is printed with five digits.
\<close>

theorem five_digit_year:
  "valid_timestamp \<lparr>ts_date = \<lparr>d_year = 10621, d_month = 3, d_day = 20\<rparr>, ts_micros = 0\<rparr> \<and>
   Time_Convert 0 = (0, 0, 0, 0) \<and>
   GregorianToJalali \<lparr>ts_date = \<lparr>d_year = 10621, d_month = 3, d_day = 20\<rparr>, ts_micros = 0\<rparr>
     = Inr ''10000-01-01'' \<and>
   length ''10000-01-01'' = 11"
proof -
  have v: "valid_timestamp \<lparr>ts_date = \<lparr>d_year = 10621, d_month = 3, d_day = 20\<rparr>, ts_micros = 0\<rparr>"
    by (simp add: valid_timestamp_def Date_IsValid_def Date_MonthDays_def MICROS_PER_DAY_def
        in_timestamp_range_def stamp_le_def)
  have t: "Time_Convert 0 = (0, 0, 0, 0)"
    by (simp add: Time_Convert_def)
  have j: "gregorian_to_jalali_ymd 10621 3 20 = Inr (10000, 1, 1)"
    by code_simp
  have y: "fmt_d 4 10000 = ''10000''"
    by (simp add: fmt_d_def dec.simps [of 10000] dec_4 digit_char_def)
  have d: "fmt_d 2 1 = ''01''"
    by (simp add: fmt_d_def dec_1 digit_char_def)
  have g: "GregorianToJalali \<lparr>ts_date = \<lparr>d_year = 10621, d_month = 3, d_day = 20\<rparr>, ts_micros = 0\<rparr>
     = Inr ''10000-01-01''"
    by (simp add: GregorianToJalali_def Timestamp_GetDate_def Timestamp_GetTime_def
        Date_Convert_def j t y d snprintf_def)
  show ?thesis
    by (intro conjI) (rule v, rule t, rule g, simp)
qed

end
